theory Spec2Isabelle
  imports Complex_Main
begin

section \<open>Python values shared by the three modules\<close>

text \<open>
  Every exception the modelled code can raise is a value of \<open>py_error\<close>; a function
  that can raise returns \<open>py_error + 'a\<close> with \<open>Inl\<close> for the exception.
  \<open>PdbSetTrace\<close> stands for reaching a \<^verbatim>\<open>pdb.set_trace()\<close> call: the run
  stops in the interactive debugger and no value is produced.
\<close>

datatype py_error =
    NotImplementedError
  | AttributeError string
  | TypeError
  | IndexError
  | KeyError string
  | NameError string
  | ValueError
  | OverflowError
  | RuntimeError nat
  | AssertionError
  | ConfigurationError
  | PdbSetTrace

text \<open>Sequencing: a raised exception skips what follows.\<close>

fun bind_err :: "'x + 'a \<Rightarrow> ('a \<Rightarrow> 'x + 'b) \<Rightarrow> 'x + 'b" where
  "bind_err (Inr v) k = k v"
| "bind_err (Inl exn) k = Inl exn"

text \<open>A list comprehension or \<^verbatim>\<open>for\<close> loop whose body can raise: the first
  exception ends it.\<close>

fun mapM_err :: "('a \<Rightarrow> 'x + 'b) \<Rightarrow> 'a list \<Rightarrow> 'x + 'b list" where
  "mapM_err f [] = Inr []"
| "mapM_err f (x # xs) =
     (case f x of
        Inl e \<Rightarrow> Inl e
      | Inr y \<Rightarrow> (case mapM_err f xs of Inl e \<Rightarrow> Inl e | Inr ys \<Rightarrow> Inr (y # ys)))"


section \<open>visualization/visualize\_attns.py\<close>











section \<open>model/gumbel\_softmax\_classifier.py\<close>

subsection \<open>The classifier object and its forward pass\<close>

text \<open>
  The classifier is a Python object: a dictionary from attribute names to values, so
  that an attribute that was never assigned is a missing key, and reading it raises
  \<open>AttributeError\<close> (the base class \<^verbatim>\<open>torch.nn.Module\<close> raises it from
  \<^verbatim>\<open>__getattr__\<close>). Tensors are values of an arbitrary type \<open>'t\<close>; the embedder,
  generator, sampler and identifier modules are functions on them. The bodies of
  \<^verbatim>\<open>__init__\<close>, \<^verbatim>\<open>forward\<close> and \<^verbatim>\<open>decode\<close> are modelled as they are written.
\<close>

datatype ('tok, 't, 'out) attr_value =
    NoneV
  | TextFieldEmbedderV "'tok \<Rightarrow> 't"
  | GeneratorV "'t \<Rightarrow> 't \<Rightarrow> 't"
  | SamplerV "'t \<Rightarrow> 't \<Rightarrow> 't"
  | IdentifierV "'t \<Rightarrow> 't \<Rightarrow> 't \<Rightarrow> 't \<Rightarrow> 't option \<Rightarrow> 'out"
  | LabelIndexerV "string list"
  | IntV int
  | FloatV real
  | ObjectV

definition getattr :: "(string \<rightharpoonup> 'v) \<Rightarrow> string \<Rightarrow> py_error + 'v" where
  "getattr obj name = (case obj name of None \<Rightarrow> Inl (AttributeError name) | Some v \<Rightarrow> Inr v)"

text \<open>
  \<^verbatim>\<open>BaseClassifier.__init__\<close>: the attributes the constructor assigns, in its
  order (\<^verbatim>\<open>vocab\<close> by the base class). The \<^verbatim>\<open>sampler\<close> argument is received
  and not stored. The label indexer is the list of its tags, see \<open>get_tag\<close> below.
\<close>

definition BaseClassifier_init ::
  "('tok, 't, 'out) attr_value \<Rightarrow> ('tok, 't, 'out) attr_value \<Rightarrow> ('tok, 't, 'out) attr_value \<Rightarrow>
   ('tok, 't, 'out) attr_value \<Rightarrow> ('tok, 't, 'out) attr_value \<Rightarrow> string list \<Rightarrow> real \<Rightarrow>
   (string \<rightharpoonup> ('tok, 't, 'out) attr_value)" where
  "BaseClassifier_init vocab text_field_embedder generator sampler identifier indexer thresh =
     [''vocab'' \<mapsto> vocab,
      ''label_indexer'' \<mapsto> LabelIndexerV indexer,
      ''num_labels'' \<mapsto> IntV (int (length indexer)),
      ''thresh'' \<mapsto> FloatV thresh,
      ''log_thresh'' \<mapsto> FloatV (ln (thresh + 1 / 100000)),
      ''text_field_embedder'' \<mapsto> text_field_embedder,
      ''generator'' \<mapsto> generator,
      ''identifier'' \<mapsto> identifier,
      ''classification_metric'' \<mapsto> ObjectV]"

text \<open>Calling an attribute: a value that is not the module raises \<open>TypeError\<close>.\<close>

definition call_embedder :: "('tok, 't, 'out) attr_value \<Rightarrow> 'tok \<Rightarrow> py_error + 't" where
  "call_embedder v toks = (case v of TextFieldEmbedderV f \<Rightarrow> Inr (f toks) | _ \<Rightarrow> Inl TypeError)"

definition call_generator :: "('tok, 't, 'out) attr_value \<Rightarrow> 't \<Rightarrow> 't \<Rightarrow> py_error + 't" where
  "call_generator v emb_msg msk = (case v of GeneratorV f \<Rightarrow> Inr (f emb_msg msk) | _ \<Rightarrow> Inl TypeError)"

definition call_sampler :: "('tok, 't, 'out) attr_value \<Rightarrow> 't \<Rightarrow> 't \<Rightarrow> py_error + 't" where
  "call_sampler v attns msk = (case v of SamplerV f \<Rightarrow> Inr (f attns msk) | _ \<Rightarrow> Inl TypeError)"

definition call_identifier ::
  "('tok, 't, 'out) attr_value \<Rightarrow> 't \<Rightarrow> 't \<Rightarrow> 't \<Rightarrow> 't \<Rightarrow> 't option \<Rightarrow> py_error + 'out" where
  "call_identifier v emb_msg msk samples attns lbls =
     (case v of IdentifierV f \<Rightarrow> Inr (f emb_msg msk samples attns lbls) | _ \<Rightarrow> Inl TypeError)"

text \<open>
  \<^verbatim>\<open>BaseClassifier.forward(self, tokens, labels=None, tags=None, **kwargs)\<close>.
  \<^verbatim>\<open>util.get_text_field_mask\<close> is the framework's function, a parameter here.
\<close>

definition forward ::
  "(string \<rightharpoonup> ('tok, 't, 'out) attr_value) \<Rightarrow> ('tok \<Rightarrow> 't) \<Rightarrow> 'tok \<Rightarrow> 't option \<Rightarrow> 't option \<Rightarrow>
   (string \<times> 'kw) list \<Rightarrow> py_error + 'out" where
  "forward self get_text_field_mask toks lbls tgs kwargs =
     (if length kwargs > 0 then Inl NotImplementedError
      else
        bind_err (getattr self ''text_field_embedder'') (\<lambda>embedder.
        bind_err (call_embedder embedder toks) (\<lambda>emb_msg.
        let msk = get_text_field_mask toks in
        bind_err (getattr self ''generator'') (\<lambda>gen.
        bind_err (call_generator gen emb_msg msk) (\<lambda>attns.
        bind_err (getattr self ''sampler'') (\<lambda>smp.
        bind_err (if smp \<noteq> NoneV then call_sampler smp attns msk else Inr attns) (\<lambda>samples.
        bind_err (getattr self ''identifier'') (\<lambda>ident.
        call_identifier ident emb_msg msk samples attns lbls))))))))"

subsection \<open>Decoding\<close>

text \<open>
  Modelled from the spec: \<^verbatim>\<open>LabelIndexer.get_tag\<close> (reader/label\_indexer.py is not
  among the sources). The indexer maps the dense indices \<open>0..num_tags-1\<close> to tag
  strings and fails with an IndexError-class condition outside that range; it is the
  list of its tags.
\<close>

definition get_tag :: "string list \<Rightarrow> nat \<Rightarrow> py_error + string" where
  "get_tag indexer i = (if i < length indexer then Inr (indexer ! i) else Inl IndexError)"

text \<open>Indexing a list or an array row: out of range raises.\<close>

definition nth_err :: "'a list \<Rightarrow> nat \<Rightarrow> py_error + 'a" where
  "nth_err xs i = (if i < length xs then Inr (xs ! i) else Inl IndexError)"

text \<open>\<^verbatim>\<open>np.nonzero(row)[0]\<close>: the indices of the non-zero entries of a vector, scanned
  from index 0.\<close>

fun nonzero_from :: "nat \<Rightarrow> 'f::zero list \<Rightarrow> nat list" where
  "nonzero_from k [] = []"
| "nonzero_from k (x # xs) =
     (if x \<noteq> 0 then k # nonzero_from (Suc k) xs else nonzero_from (Suc k) xs)"

definition np_nonzero :: "'f::zero list \<Rightarrow> nat list" where
  "np_nonzero row = nonzero_from 0 row"

text \<open>
  The arrays of \<^verbatim>\<open>outputs\<close>, after \<^verbatim>\<open>to_numpy\<close>: the two-dimensional ones are
  lists of rows, the three-dimensional \<^verbatim>\<open>attentions\<close> (batch x seq\_len x num\_tags)
  carries its shape, so that its last dimension is known for an empty sequence too.
  The entries are of a type \<open>'f\<close> of floating-point numbers with its \<open>0\<close> and
  \<open>1\<close>; \<^verbatim>\<open>np.exp\<close> on it is the parameter \<open>np_exp\<close> of the decoder.
\<close>

record 'f ndarray3 =
  shape0 :: nat
  shape1 :: nat
  shape2 :: nat
  item3 :: "nat \<Rightarrow> nat \<Rightarrow> nat \<Rightarrow> 'f"

record 'f outputs =
  o_mask :: "nat list list"
  o_preds :: "'f list list"
  o_log_probs :: "'f list list"
  o_attentions :: "'f ndarray3"

record 'f decoded_output =
  d_preds :: "(string \<times> 'f) list list"
  d_attentions :: "(string \<times> 'f list) list list"

text \<open>\<^verbatim>\<open>attention[tag] = v\<close> on an \<^verbatim>\<open>OrderedDict\<close>: a key that is present keeps its
  place.\<close>

fun odict_set :: "('k \<times> 'v) list \<Rightarrow> 'k \<Rightarrow> 'v \<Rightarrow> ('k \<times> 'v) list" where
  "odict_set [] k v = [(k, v)]"
| "odict_set ((k', v') # d) k v = (if k' = k then (k, v) # d else (k', v') # odict_set d k v)"

text \<open>The inner loop over the set prediction bits of instance \<open>ix\<close>, then the
  default.\<close>

definition decode_pred_list ::
  "('f \<Rightarrow> 'f) \<Rightarrow> string list \<Rightarrow> ('f::{zero,one}) outputs \<Rightarrow> nat \<Rightarrow> py_error + (string \<times> 'f) list" where
  "decode_pred_list np_exp indexer outs ix =
     bind_err (nth_err (o_preds outs) ix) (\<lambda>prow.
     bind_err
       (mapM_err
          (\<lambda>k. bind_err (get_tag indexer k) (\<lambda>tag.
               bind_err (nth_err (o_log_probs outs) ix) (\<lambda>lrow.
               bind_err (nth_err lrow k) (\<lambda>lp. Inr (tag, np_exp lp)))))
          (np_nonzero prow)) (\<lambda>pred_list.
     Inr (if length pred_list = 0 then pred_list @ [(''O'', 1)] else pred_list)))"

text \<open>The loop over the tag dimension of \<^verbatim>\<open>attentions[ix]\<close>; the slice
  \<^verbatim>\<open>:lengths[ix]\<close> is clipped to the sequence dimension.\<close>

definition decode_attention ::
  "string list \<Rightarrow> 'f outputs \<Rightarrow> nat \<Rightarrow> nat \<Rightarrow> py_error + (string \<times> 'f list) list" where
  "decode_attention indexer outs len ix =
     (let a = o_attentions outs in
      if shape0 a \<le> ix then Inl IndexError
      else
        bind_err
          (mapM_err
             (\<lambda>jx. bind_err (get_tag indexer jx) (\<lambda>tag.
                  Inr (tag, map (\<lambda>t. item3 a ix t jx) [0..<min len (shape1 a)])))
             [0..<shape2 a]) (\<lambda>pairs.
        Inr (fold (\<lambda>(tag, ws) d. odict_set d tag ws) pairs [])))"

text \<open>\<^verbatim>\<open>BaseClassifier.decode(self, outputs)\<close>, with \<^verbatim>\<open>np.exp\<close> and
  \<^verbatim>\<open>self.label_indexer\<close> as the first arguments.\<close>

definition decode ::
  "('f \<Rightarrow> 'f) \<Rightarrow> string list \<Rightarrow> ('f::{zero,one}) outputs \<Rightarrow> py_error + 'f decoded_output" where
  "decode np_exp indexer outs =
     (let lengths = map sum_list (o_mask outs) in
      bind_err
        (mapM_err
           (\<lambda>ix. bind_err (decode_pred_list np_exp indexer outs ix) (\<lambda>pred_list.
                bind_err (decode_attention indexer outs (lengths ! ix) ix) (\<lambda>attention.
                Inr (pred_list, attention))))
           [0..<length lengths]) (\<lambda>rs.
      Inr \<lparr>d_preds = map fst rs, d_attentions = map snd rs\<rparr>))"

section \<open>reader/weak\_conll\_reader.py\<close>

subsection \<open>Strings\<close>

text \<open>
  Characters are bytes: the whitespace of \<^verbatim>\<open>str.strip\<close> and \<^verbatim>\<open>str.split\<close> is
  the ASCII whitespace (tab, line feed, vertical tab, form feed, carriage return, the
  four separators 0x1C..0x1F and space), and \<^verbatim>\<open>str.lower\<close> maps the ASCII capitals.
\<close>

definition is_space :: "char \<Rightarrow> bool" where
  "is_space c =
     (c \<in> set [CHR 0x09, CHR 0x0A, CHR 0x0B, CHR 0x0C, CHR 0x0D,
                CHR 0x1C, CHR 0x1D, CHR 0x1E, CHR 0x1F, CHR 0x20])"

definition py_strip :: "string \<Rightarrow> string" where
  "py_strip s = rev (dropWhile is_space (rev (dropWhile is_space s)))"

text \<open>\<^verbatim>\<open>s.split()\<close>: the maximal runs of non-whitespace characters; \<open>cur\<close> is the
  run being read, reversed.\<close>

fun split_from :: "string \<Rightarrow> string \<Rightarrow> string list" where
  "split_from cur [] = (if cur = [] then [] else [rev cur])"
| "split_from cur (c # cs) =
     (if is_space c then (if cur = [] then split_from [] cs else rev cur # split_from [] cs)
      else split_from (c # cur) cs)"

definition py_split :: "string \<Rightarrow> string list" where
  "py_split s = split_from [] s"

definition py_lower :: "string \<Rightarrow> string" where
  "py_lower s =
     map (\<lambda>c. if c \<in> set ''ABCDEFGHIJKLMNOPQRSTUVWXYZ'' then char_of (of_char c + (32::nat)) else c) s"

definition is_digit :: "char \<Rightarrow> bool" where
  "is_digit c = (c \<in> set ''0123456789'')"

definition NUM_TOKEN :: string where
  "NUM_TOKEN = ''@0@''"

text \<open>\<^verbatim>\<open>re.sub(r"[0-9]+", NUM_TOKEN, token)\<close>: every maximal run of digits becomes
  the placeholder.\<close>

function sub_digits :: "string \<Rightarrow> string" where
  "sub_digits [] = []"
| "sub_digits (c # cs) =
     (if is_digit c then NUM_TOKEN @ sub_digits (dropWhile is_digit cs) else c # sub_digits cs)"
  by pat_completeness auto
termination
proof (relation "measure length")
  show "wf (measure length)" by simp
next
  fix c :: char and cs :: string
  have "length (dropWhile is_digit cs) \<le> length cs"
    by (rule length_dropWhile_le)
  then show "(dropWhile is_digit cs, c # cs) \<in> measure length" by simp
next
  fix c :: char and cs :: string
  show "(cs, c # cs) \<in> measure length" by simp
qed

text \<open>\<^verbatim>\<open>re.sub("I-", "B-", tag)\<close>: every occurrence of \<^verbatim>\<open>I-\<close>, left to right, becomes
  \<^verbatim>\<open>B-\<close>.\<close>

fun sub_I_B :: "string \<Rightarrow> string" where
  "sub_I_B (a # b # cs) =
     (if a = CHR ''I'' \<and> b = CHR ''-'' then ''B-'' @ sub_I_B cs else a # sub_I_B (b # cs))"
| "sub_I_B cs = cs"

definition startswith :: "string \<Rightarrow> string \<Rightarrow> bool" where
  "startswith s p = (take (length p) s = p)"

subsection \<open>Lists\<close>

text \<open>\<^verbatim>\<open>xs[a:b]\<close> for \<open>0 \<le> a \<le> b\<close>.\<close>

definition py_slice :: "'a list \<Rightarrow> nat \<Rightarrow> nat \<Rightarrow> 'a list" where
  "py_slice xs a b = take (b - a) (drop a xs)"

text \<open>\<^verbatim>\<open>range(ix, n, step)\<close>; a zero step raises \<open>ValueError\<close>.\<close>

function range_from :: "nat \<Rightarrow> nat \<Rightarrow> nat \<Rightarrow> nat list" where
  "range_from ix n step =
     (if 0 < step \<and> ix < n then ix # range_from (ix + step) n step else [])"
  by pat_completeness auto
termination
  by (relation "measure (\<lambda>(ix, n, step). n - ix)") auto

declare range_from.simps [simp del]

definition py_range :: "nat \<Rightarrow> nat \<Rightarrow> nat \<Rightarrow> py_error + nat list" where
  "py_range start n step = (if step = 0 then Inl ValueError else Inr (range_from start n step))"

text \<open>\<^verbatim>\<open>zip(*rows)\<close>: the columns, as many as the shortest row has entries.\<close>

fun min_len :: "'a list list \<Rightarrow> nat" where
  "min_len [] = 0"
| "min_len [r] = length r"
| "min_len (r # rs) = min (length r) (min_len rs)"

definition zip_star :: "'a list list \<Rightarrow> 'a list list" where
  "zip_star rows = map (\<lambda>j. map (\<lambda>r. r ! j) rows) [0..<min_len rows]"

text \<open>\<^verbatim>\<open>itertools.groupby(xs, key)\<close>: the maximal runs of equal key, each with its
  key.\<close>

function groupby :: "('a \<Rightarrow> 'k) \<Rightarrow> 'a list \<Rightarrow> ('k \<times> 'a list) list" where
  "groupby key [] = []"
| "groupby key (x # xs) =
     (key x, x # takeWhile (\<lambda>y. key y = key x) xs) #
     groupby key (dropWhile (\<lambda>y. key y = key x) xs)"
  by pat_completeness auto
termination
proof (relation "measure (\<lambda>(key, xs). length xs)")
  show "wf (measure (\<lambda>(key, xs). length xs))" by simp
next
  fix key :: "'a \<Rightarrow> 'k" and x :: 'a and xs :: "'a list"
  have "length (dropWhile (\<lambda>y. key y = key x) xs) \<le> length xs"
    by (rule length_dropWhile_le)
  then show "((key, dropWhile (\<lambda>y. key y = key x) xs), (key, x # xs))
      \<in> measure (\<lambda>(key, xs). length xs)"
    by simp
qed

subsection \<open>The reader\<close>

text \<open>
  \<^verbatim>\<open>_is_divider(line)\<close>. A line whose strip is not empty has a first token (lemma
  \<open>py_split_not_Nil\<close> below), so the empty case of the split is never taken.
\<close>

definition is_divider :: "string \<Rightarrow> bool" where
  "is_divider line =
     (if py_strip line = [] then True
      else (case py_split line of
              [] \<Rightarrow> False
            | first_token # _ \<Rightarrow> (if first_token = ''-DOCSTART-'' then True else False)))"

text \<open>
  The reader's attributes. \<open>label_indexer\<close> is the indexer's \<^verbatim>\<open>index\<close> method
  (reader/label\_indexer.py is not among the sources): a function from the tag sequence
  to the multi-label field; \<open>mask_set\<close> is the set that
  \<^verbatim>\<open>getattr(constants, mask_set)\<close> names (commons/constants.py is not among the
  sources), empty by default.
\<close>

record 'l reader =
  tag_label :: "string option"
  feature_labels :: "string set"
  coding_scheme :: string
  max_sentence_length :: int
  label_indexer :: "(string list \<Rightarrow> 'l) option"
  convert_numbers :: bool
  mask_set :: "string set"

definition VALID_LABELS :: "string set" where
  "VALID_LABELS = {''ner'', ''pos'', ''chunk''}"

text \<open>\<^verbatim>\<open>WeakConll2003DatasetReader.__init__\<close>, with the constructor's defaults
  written by the caller.\<close>

definition reader_init ::
  "string option \<Rightarrow> string list \<Rightarrow> bool \<Rightarrow> string \<Rightarrow> (string list \<Rightarrow> 'l) option \<Rightarrow> int \<Rightarrow>
   string set option \<Rightarrow> py_error + 'l reader" where
  "reader_init tag_lbl feature_lbls conv scheme indexer max_len mset =
     (if tag_lbl \<noteq> None \<and> tag_lbl \<notin> Some ` VALID_LABELS then Inl ConfigurationError
      else if list_ex (\<lambda>label. label \<notin> VALID_LABELS) feature_lbls then Inl ConfigurationError
      else if scheme \<notin> {''IOB1'', ''BIOUL''} then Inl ConfigurationError
      else Inr \<lparr>tag_label = tag_lbl, feature_labels = set feature_lbls, coding_scheme = scheme,
                max_sentence_length = max_len, label_indexer = indexer, convert_numbers = conv,
                mask_set = (case mset of None \<Rightarrow> {} | Some m \<Rightarrow> m)\<rparr>)"

text \<open>
  An instance: its fields by key. \<^verbatim>\<open>tokens\<close> holds the token texts, \<^verbatim>\<open>attn_mask\<close>
  the mask tokens with their \<^verbatim>\<open>text_id\<close>; an absent key is \<open>None\<close>.
\<close>

record 'l Instance =
  f_tokens :: "string list"
  f_attn_mask :: "(string \<times> nat) list"
  f_pos_tags :: "string list option"
  f_chunk_tags :: "string list option"
  f_ner_tags :: "string list option"
  f_tags :: "string list option"
  f_labels :: "'l option"

datatype log_entry =
    Info_reading
  | Warning_splitting nat int
  | Info_correction

text \<open>
  The constructor of the framework's \<^verbatim>\<open>SequenceLabelField(labels, sequence_field)\<close>:
  it takes \<^verbatim>\<open>len(labels)\<close> (a \<^verbatim>\<open>TypeError\<close> for \<^verbatim>\<open>None\<close>) and raises
  \<^verbatim>\<open>ConfigurationError\<close> when it differs from the sequence's length.
\<close>

definition SequenceLabelField :: "string list option \<Rightarrow> 'a list \<Rightarrow> py_error + string list" where
  "SequenceLabelField lbls sequence_field =
     (case lbls of
        None \<Rightarrow> Inl TypeError
      | Some ls \<Rightarrow> if length ls \<noteq> length sequence_field then Inl ConfigurationError else Inr ls)"

definition optional_field ::
  "bool \<Rightarrow> py_error + string list \<Rightarrow> py_error + string list option" where
  "optional_field wanted fld =
     (if wanted then (case fld of Inl e \<Rightarrow> Inl e | Inr ls \<Rightarrow> Inr (Some ls)) else Inr None)"

text \<open>
  The body of the window loop, lines 172 to 231 of the source, for the window that
  starts at \<open>ix\<close>. The module never imports \<^verbatim>\<open>iob1_to_bioul\<close>, so the BIOUL branch
  raises \<open>NameError\<close> at its first call. With \<^verbatim>\<open>tag_label == 'ner'\<close> an exception
  of the field's constructor is caught and the debugger is entered; with
  \<^verbatim>\<open>'pos'\<close> the field is built from the whole, unsliced \<^verbatim>\<open>pos_tags\<close>.
\<close>

definition make_instance ::
  "'l reader \<Rightarrow> string list \<Rightarrow> (string \<times> nat) list \<Rightarrow> string list \<Rightarrow> string list option \<Rightarrow>
   string list \<Rightarrow> nat \<Rightarrow> nat \<Rightarrow> py_error + 'l Instance" where
  "make_instance rd new_tokens mask_tokens pos_tags chunk_tags ner_tags stepsize ix =
     (let sequence = py_slice new_tokens ix (ix + stepsize);
          attn_mask_seq = py_slice mask_tokens ix (ix + stepsize)
      in
      bind_err
        (if coding_scheme rd = ''BIOUL'' then Inl (NameError ''iob1_to_bioul'')
         else Inr (map_option (\<lambda>c. py_slice c ix (ix + stepsize)) chunk_tags,
                   py_slice ner_tags ix (ix + stepsize))) (\<lambda>(coded_chunks, coded_ner).
      bind_err
        (optional_field (''pos'' \<in> feature_labels rd)
           (SequenceLabelField (Some (py_slice pos_tags ix (ix + stepsize))) sequence)) (\<lambda>pos_field.
      bind_err
        (optional_field (''chunk'' \<in> feature_labels rd)
           (SequenceLabelField coded_chunks sequence)) (\<lambda>chunk_field.
      bind_err
        (optional_field (''ner'' \<in> feature_labels rd)
           (SequenceLabelField (Some coded_ner) sequence)) (\<lambda>ner_field.
      bind_err
        (if tag_label rd = Some ''ner'' then
           (case SequenceLabelField (Some coded_ner) sequence of
              Inl e \<Rightarrow> Inl PdbSetTrace
            | Inr ls \<Rightarrow> Inr (Some ls))
         else if tag_label rd = Some ''pos'' then
           optional_field True (SequenceLabelField (Some pos_tags) sequence)
         else if tag_label rd = Some ''chunk'' then
           optional_field True (SequenceLabelField coded_chunks sequence)
         else Inr None) (\<lambda>tags_field.
      Inr \<lparr>f_tokens = sequence, f_attn_mask = attn_mask_seq, f_pos_tags = pos_field,
           f_chunk_tags = chunk_field, f_ner_tags = ner_field, f_tags = tags_field,
           f_labels = map_option (\<lambda>index. index coded_ner) (label_indexer rd)\<rparr>))))))"

text \<open>The tokens of a sentence as the reader builds them (lines 157 to 167).\<close>

definition new_token :: "'l reader \<Rightarrow> string \<Rightarrow> string" where
  "new_token rd token = (if convert_numbers rd then sub_digits token else token)"

definition mask_token :: "'l reader \<Rightarrow> string \<Rightarrow> string \<times> nat" where
  "mask_token rd token =
     (new_token rd token, if py_lower (new_token rd token) \<in> mask_set rd then 1 else 0)"

text \<open>The columns of a sentence: \<^verbatim>\<open>unzipped_fields\<close> of the source.\<close>

definition unzip_fields :: "string list \<Rightarrow> string list list" where
  "unzip_fields lns = zip_star (map (\<lambda>line. py_split (py_strip line)) lns)"

text \<open>
  The body of the sentence loop, lines 129 to 231, for the lines of one sentence: the
  log entries it writes and the instances it appends, or the exception it raises.
\<close>

definition read_sentence ::
  "'l reader \<Rightarrow> string list \<Rightarrow> log_entry list \<times> (py_error + 'l Instance list)" where
  "read_sentence rd lns =
     (let unzipped_fields = unzip_fields lns;
          L = max_sentence_length rd
      in
      case (if L > 0 then
              (case unzipped_fields of
                 [] \<Rightarrow> Inl IndexError
               | col0 # _ \<Rightarrow>
                   Inr (if L < int (length col0) then [Warning_splitting (length col0) L] else []))
            else Inr []) of
        Inl e \<Rightarrow> ([], Inl e)
      | Inr lg \<Rightarrow>
          (lg,
           bind_err
             (if length unzipped_fields = 4 then
                Inr (unzipped_fields ! 0, unzipped_fields ! 1, Some (unzipped_fields ! 2),
                     unzipped_fields ! 3)
              else if length unzipped_fields = 3 then
                Inr (unzipped_fields ! 0, unzipped_fields ! 1, None, unzipped_fields ! 2)
              else Inl (RuntimeError (length unzipped_fields)))
             (\<lambda>(tokens, pos_tags, chunk_tags, ner_tags).
                let new_tokens = map (new_token rd) tokens;
                    mask_tokens = map (mask_token rd) tokens;
                    stepsize = (if L > 0 then nat L else length tokens)
                in bind_err (py_range 0 (length new_tokens) stepsize)
                     (mapM_err
                        (make_instance rd new_tokens mask_tokens pos_tags chunk_tags ner_tags
                           stepsize)))))"

text \<open>The loop over the groups of lines (line 125): divider groups are skipped, the
  instances of the sentences are appended in order, the first exception ends the read.\<close>

fun read_groups ::
  "'l reader \<Rightarrow> (bool \<times> string list) list \<Rightarrow> log_entry list \<times> (py_error + 'l Instance list)" where
  "read_groups rd [] = ([], Inr [])"
| "read_groups rd ((is_div, lns) # rest) =
     (if \<not> is_div then
        (case read_sentence rd lns of
           (lg, Inl e) \<Rightarrow> (lg, Inl e)
         | (lg, Inr insts) \<Rightarrow>
             (case read_groups rd rest of
                (lg', Inl e) \<Rightarrow> (lg @ lg', Inl e)
              | (lg', Inr others) \<Rightarrow> (lg @ lg', Inr (insts @ others))))
      else read_groups rd rest)"

text \<open>
  The body of the final loop, lines 234 to 240, for one instance. The assignment
  changes the list object held by the \<^verbatim>\<open>tags\<close> field; the \<^verbatim>\<open>ner_tags\<close> or
  \<^verbatim>\<open>chunk_tags\<close> field holds the same object when it was built from the same
  variable, and changes with it.
\<close>

definition check_instance ::
  "'l reader \<Rightarrow> 'l Instance \<Rightarrow> log_entry list \<times> (py_error + 'l Instance)" where
  "check_instance rd inst =
     (case f_tags inst of
        None \<Rightarrow> ([], Inl (KeyError ''tags''))
      | Some lbls \<Rightarrow>
          if length (f_tokens inst) \<noteq> length lbls then ([], Inl AssertionError)
          else if max_sentence_length rd > 0 \<and>
                  \<not> int (length (f_tokens inst)) \<le> max_sentence_length rd
          then ([], Inl AssertionError)
          else (case lbls of
                  [] \<Rightarrow> ([], Inl IndexError)
                | t # ts \<Rightarrow>
                    if startswith t ''I-'' then
                      (let lbls' = sub_I_B t # ts in
                       ([Info_correction],
                        Inr (inst\<lparr>f_tags := Some lbls',
                               f_ner_tags :=
                                 (if tag_label rd = Some ''ner'' \<and> ''ner'' \<in> feature_labels rd
                                  then Some lbls' else f_ner_tags inst),
                               f_chunk_tags :=
                                 (if tag_label rd = Some ''chunk'' \<and> ''chunk'' \<in> feature_labels rd
                                  then Some lbls' else f_chunk_tags inst)\<rparr>)))
                    else ([], Inr inst)))"

fun check_instances ::
  "'l reader \<Rightarrow> 'l Instance list \<Rightarrow> log_entry list \<times> (py_error + 'l Instance list)" where
  "check_instances rd [] = ([], Inr [])"
| "check_instances rd (inst # rest) =
     (case check_instance rd inst of
        (lg, Inl e) \<Rightarrow> (lg, Inl e)
      | (lg, Inr inst') \<Rightarrow>
          (case check_instances rd rest of
             (lg', Inl e) \<Rightarrow> (lg @ lg', Inl e)
           | (lg', Inr rest') \<Rightarrow> (lg @ lg', Inr (inst' # rest'))))"

text \<open>The sentences of a file: the groups of lines that are not dividers.\<close>

definition sentences :: "string list \<Rightarrow> string list list" where
  "sentences data_file = map snd (filter (\<lambda>g. \<not> fst g) (groupby is_divider data_file))"

text \<open>\<^verbatim>\<open>WeakConll2003DatasetReader._read\<close> on the lines of the opened file: the log
  and either the exception raised or the list of instances returned.\<close>

definition read_file ::
  "'l reader \<Rightarrow> string list \<Rightarrow> log_entry list \<times> (py_error + 'l Instance list)" where
  "read_file rd data_file =
     (case read_groups rd (groupby is_divider data_file) of
        (lg, Inl e) \<Rightarrow> (Info_reading # lg, Inl e)
      | (lg, Inr instances) \<Rightarrow>
          (case check_instances rd instances of
             (lg', r) \<Rightarrow> (Info_reading # lg @ lg', r)))"

text \<open>The list \<^verbatim>\<open>new_tokens\<close> and the number \<^verbatim>\<open>stepsize\<close> of the source, for the
  lines of a sentence (its first column holds the tokens).\<close>

definition new_tokens :: "'l reader \<Rightarrow> string list \<Rightarrow> string list" where
  "new_tokens rd lns = map (new_token rd) (unzip_fields lns ! 0)"

definition stepsize :: "'l reader \<Rightarrow> string list \<Rightarrow> nat" where
  "stepsize rd lns =
     (if max_sentence_length rd > 0 then nat (max_sentence_length rd)
      else length (unzip_fields lns ! 0))"

section \<open>Example inputs\<close>

text \<open>A decoded batch of one instance over three tag types, with the prediction row
  given; exponentials and log-probabilities are real numbers here.\<close>

definition ex_outs :: "real list \<Rightarrow> real outputs" where
  "ex_outs row =
     \<lparr>o_mask = [[1, 1, 0]], o_preds = [row], o_log_probs = [[- (1 / 10), - 5, - (3 / 10)]],
      o_attentions = \<lparr>shape0 = 1, shape1 = 3, shape2 = 3, item3 = (\<lambda>i t j. 0)\<rparr>\<rparr>"

text \<open>
  A reader as the constructor builds it for \<^verbatim>\<open>tag_label="ner"\<close>, no feature labels,
  the IOB1 scheme and no mask set, with the given \<^verbatim>\<open>max_sentence_length\<close> and
  \<^verbatim>\<open>convert_numbers\<close>. Its label indexer keeps the tag sequence it is given, which
  shows what sequence the \<^verbatim>\<open>labels\<close> field was computed from.
\<close>

definition ex_reader :: "int \<Rightarrow> bool \<Rightarrow> string list reader" where
  "ex_reader L conv =
     \<lparr>tag_label = Some ''ner'', feature_labels = {}, coding_scheme = ''IOB1'',
      max_sentence_length = L, label_indexer = Some (\<lambda>tags. tags), convert_numbers = conv,
      mask_set = {}\<rparr>"

section \<open>Properties of the visualizer\<close>













section \<open>Exceptions as values\<close>

lemma bind_err_Inr_iff:
  "bind_err m f = Inr y \<longleftrightarrow> (\<exists>x. m = Inr x \<and> f x = Inr y)"
  by (cases m) auto

lemma mapM_err_Inr:
  "mapM_err f xs = Inr ys \<Longrightarrow> list_all2 (\<lambda>x y. f x = Inr y) xs ys"
  by (induction xs arbitrary: ys) (auto split: sum.splits)

lemma mapM_err_Inl:
  "x \<in> set xs \<Longrightarrow> f x = Inl e \<Longrightarrow> \<exists>e'. mapM_err f xs = Inl e'"
  by (induction xs) (auto split: sum.splits)

lemma mapM_err_returns:
  "(\<And>x. x \<in> set xs \<Longrightarrow> \<exists>y. f x = Inr y) \<Longrightarrow> \<exists>ys. mapM_err f xs = Inr ys"
proof (induction xs)
  case Nil
  then show ?case by simp
next
  case (Cons x xs)
  from Cons.prems [of x] obtain y where y: "f x = Inr y" by auto
  from Cons.IH Cons.prems obtain ys where "mapM_err f xs = Inr ys" by auto
  with y show ?case by simp
qed

lemma mapM_err_map:
  "(\<And>x. x \<in> set xs \<Longrightarrow> f x = Inr (g x)) \<Longrightarrow> mapM_err f xs = Inr (map g xs)"
  by (induction xs) simp_all

section \<open>Properties of the classifier\<close>

lemma init_sampler_unset:
  "BaseClassifier_init vocab embedder gen smp ident indexer thresh ''sampler'' = None"
  by (simp add: BaseClassifier_init_def)

lemma forward_sampler_None:
  assumes "self ''text_field_embedder'' = Some (TextFieldEmbedderV emb)"
    and "self ''generator'' = Some (GeneratorV gen)"
    and "self ''sampler'' = Some NoneV"
    and "self ''identifier'' = Some (IdentifierV ident)"
  shows "forward self get_mask toks lbls tgs [] =
    Inr (ident (emb toks) (get_mask toks) (gen (emb toks) (get_mask toks))
           (gen (emb toks) (get_mask toks)) lbls)"
  using assms
  by (simp add: forward_def getattr_def call_embedder_def call_generator_def
      call_identifier_def Let_def)

text \<open>
  Claim C1. The claim says that with the sampler absent or disabled the forward pass
  completes and hands the raw attention to the identifier as the sampled one. On an
  object that has a \<^verbatim>\<open>sampler\<close> attribute equal to \<^verbatim>\<open>None\<close> this is what
  \<open>forward_sampler_None\<close> shows. The constructor never assigns the attribute, so on
  every object it builds, whatever sampler was passed, a forward call without extra
  keyword arguments raises \<open>AttributeError\<close> at the sampler access and does not
  complete.
\<close>

theorem forward_after_init_fails:
  "forward (BaseClassifier_init vocab (TextFieldEmbedderV emb) (GeneratorV gen) smp
              (IdentifierV ident) indexer thresh) get_mask toks lbls tgs []
   = Inl (AttributeError ''sampler'')"
  by (simp add: forward_def getattr_def BaseClassifier_init_def call_embedder_def
      call_generator_def Let_def)

text \<open>
  Claim C7. A forward call with any extra keyword argument raises
  \<open>NotImplementedError\<close>, whatever the object and the batch are (nothing is read or
  computed before); a call without extra keyword arguments never ends in that
  exception.
\<close>

theorem forward_rejects_kwargs:
  "(kwargs \<noteq> [] \<longrightarrow> forward self get_mask toks lbls tgs kwargs = Inl NotImplementedError) \<and>
   forward self get_mask toks lbls tgs ([] :: (string \<times> 'kw) list) \<noteq> Inl NotImplementedError"
proof (intro conjI impI)
  assume "kwargs \<noteq> []"
  then show "forward self get_mask toks lbls tgs kwargs = Inl NotImplementedError"
    by (simp add: forward_def)
next
  show "forward self get_mask toks lbls tgs ([] :: (string \<times> 'kw) list) \<noteq> Inl NotImplementedError"
    by (auto simp: forward_def getattr_def call_embedder_def call_generator_def
        call_sampler_def call_identifier_def Let_def
        split: option.splits attr_value.splits)
qed

theorem forward_rejects_kwargs_witness:
  "[(''pos_tags'', 0::nat)] \<noteq> [] \<and>
   forward (Map.empty :: string \<rightharpoonup> (nat, nat, nat) attr_value) id 0 None None
     [(''pos_tags'', 0::nat)] = Inl NotImplementedError \<and>
   forward (Map.empty :: string \<rightharpoonup> (nat, nat, nat) attr_value) id 0 None None
     ([] :: (string \<times> nat) list) \<noteq> Inl NotImplementedError"
  using forward_rejects_kwargs [of "[(''pos_tags'', 0::nat)]"
      "Map.empty :: string \<rightharpoonup> (nat, nat, nat) attr_value" id 0 None None]
  by simp

section \<open>Properties of the decoder\<close>

lemma upt_small: "[0..<3] = [0, 1, 2]" "[0..<2] = [0, 1]" "[0..<1] = [0]"
  by (simp_all add: upt_rec)

lemma nonzero_from_all_zero:
  "\<forall>v\<in>set xs. v = 0 \<Longrightarrow> nonzero_from k xs = []"
  by (induction xs arbitrary: k) auto

lemma set_nonzero_from:
  "set (nonzero_from k xs) = {k + i | i. i < length xs \<and> xs ! i \<noteq> 0}"
proof (induction xs arbitrary: k)
  case Nil
  then show ?case by simp
next
  case (Cons x xs)
  have "{k + i | i. i < length (x # xs) \<and> (x # xs) ! i \<noteq> 0}
      = (if x \<noteq> 0 then {k} else {}) \<union> {Suc k + i | i. i < length xs \<and> xs ! i \<noteq> 0}"
    (is "?A = ?B")
  proof (intro set_eqI iffI)
    fix n assume "n \<in> ?A"
    then obtain i where i: "n = k + i" "i < length (x # xs)" "(x # xs) ! i \<noteq> 0" by auto
    then show "n \<in> ?B" by (cases i) auto
  next
    fix n assume "n \<in> ?B"
    then consider "x \<noteq> 0" "n = k"
      | i where "n = Suc k + i" "i < length xs" "xs ! i \<noteq> 0"
      by (auto split: if_splits)
    then show "n \<in> ?A"
    proof cases
      case 1
      then have "n = k + 0 \<and> 0 < length (x # xs) \<and> (x # xs) ! 0 \<noteq> 0" by simp
      then show ?thesis by blast
    next
      case 2
      then have "n = k + Suc i \<and> Suc i < length (x # xs) \<and> (x # xs) ! Suc i \<noteq> 0" by simp
      then show ?thesis by blast
    qed
  qed
  with Cons.IH [of "Suc k"] show ?case by auto
qed

lemma sorted_nonzero_from:
  "sorted_wrt (<) (nonzero_from k xs)"
proof (induction xs arbitrary: k)
  case Nil
  then show ?case by simp
next
  case (Cons x xs)
  have "\<forall>n\<in>set (nonzero_from (Suc k) xs). k < n"
    by (auto simp: set_nonzero_from)
  with Cons.IH [of "Suc k"] show ?case by simp
qed

lemma set_np_nonzero:
  "set (np_nonzero row) = {i. i < length row \<and> row ! i \<noteq> 0}"
  by (simp add: np_nonzero_def set_nonzero_from)

lemma decode_Inr_pred_list:
  assumes "decode np_exp indexer outs = Inr d" and "ix < length (o_mask outs)"
  shows "decode_pred_list np_exp indexer outs ix = Inr (d_preds d ! ix)"
proof -
  let ?f = "\<lambda>ix. bind_err (decode_pred_list np_exp indexer outs ix) (\<lambda>pred_list.
                bind_err (decode_attention indexer outs (map sum_list (o_mask outs) ! ix) ix)
                  (\<lambda>attention. Inr (pred_list, attention)))"
  from assms(1) obtain rs where rs: "mapM_err ?f [0..<length (o_mask outs)] = Inr rs"
    and d: "d = \<lparr>d_preds = map fst rs, d_attentions = map snd rs\<rparr>"
    by (auto simp: decode_def Let_def bind_err_Inr_iff)
  from mapM_err_Inr [OF rs] have all: "list_all2 (\<lambda>x y. ?f x = Inr y) [0..<length (o_mask outs)] rs" .
  then have len: "length rs = length (o_mask outs)"
    by (auto dest: list_all2_lengthD)
  from all assms(2) have "?f ([0..<length (o_mask outs)] ! ix) = Inr (rs ! ix)"
    by (auto simp: list_all2_conv_all_nth)
  with assms(2) have "?f ix = Inr (rs ! ix)" by simp
  then have "decode_pred_list np_exp indexer outs ix = Inr (fst (rs ! ix))"
    by (auto simp: bind_err_Inr_iff) (metis fst_conv)
  with d len assms(2) show ?thesis by simp
qed


lemma nth_err_Inr_iff:
  "nth_err xs i = Inr x \<longleftrightarrow> i < length xs \<and> x = xs ! i"
  by (auto simp: nth_err_def)

lemma get_tag_Inr_iff:
  "get_tag indexer i = Inr t \<longleftrightarrow> i < length indexer \<and> t = indexer ! i"
  by (auto simp: get_tag_def)

lemma decode_pred_list_Inr:
  assumes "decode_pred_list np_exp indexer outs ix = Inr pl"
  shows "(\<forall>k\<in>set (np_nonzero (o_preds outs ! ix)).
            k < length indexer \<and> ix < length (o_log_probs outs) \<and> k < length (o_log_probs outs ! ix)) \<and>
         pl = (if np_nonzero (o_preds outs ! ix) = [] then [(''O'', 1)]
               else map (\<lambda>k. (indexer ! k, np_exp (o_log_probs outs ! ix ! k)))
                      (np_nonzero (o_preds outs ! ix)))"
proof -
  let ?ks = "np_nonzero (o_preds outs ! ix)"
  let ?f = "\<lambda>k. bind_err (get_tag indexer k) (\<lambda>tag.
               bind_err (nth_err (o_log_probs outs) ix) (\<lambda>lrow.
               bind_err (nth_err lrow k) (\<lambda>lp. Inr (tag, np_exp lp))))"
  from assms obtain ys where ys: "mapM_err ?f ?ks = Inr ys"
    and pl: "pl = (if length ys = 0 then ys @ [(''O'', 1)] else ys)"
    by (auto simp: decode_pred_list_def bind_err_Inr_iff nth_err_Inr_iff)
  from mapM_err_Inr [OF ys] have all: "list_all2 (\<lambda>k y. ?f k = Inr y) ?ks ys" .
  have step: "k < length indexer \<and> ix < length (o_log_probs outs) \<and>
      k < length (o_log_probs outs ! ix) \<and>
      y = (indexer ! k, np_exp (o_log_probs outs ! ix ! k))" if "?f k = Inr y" for k y
    using that by (auto simp: bind_err_Inr_iff nth_err_Inr_iff get_tag_Inr_iff)
  from all have len: "length ys = length ?ks" by (auto dest: list_all2_lengthD)
  have ys_eq: "ys = map (\<lambda>k. (indexer ! k, np_exp (o_log_probs outs ! ix ! k))) ?ks"
  proof (rule nth_equalityI)
    show "length ys = length (map (\<lambda>k. (indexer ! k, np_exp (o_log_probs outs ! ix ! k))) ?ks)"
      using len by simp
  next
    fix i assume "i < length ys"
    with all len have "?f (?ks ! i) = Inr (ys ! i)" by (simp add: list_all2_conv_all_nth)
    from step [OF this] len \<open>i < length ys\<close>
    show "ys ! i = map (\<lambda>k. (indexer ! k, np_exp (o_log_probs outs ! ix ! k))) ?ks ! i" by simp
  qed
  have bounds: "\<forall>k\<in>set ?ks. k < length indexer \<and> ix < length (o_log_probs outs) \<and>
      k < length (o_log_probs outs ! ix)"
  proof
    fix k assume "k \<in> set ?ks"
    then obtain i where i: "i < length ?ks" "?ks ! i = k" by (auto simp: in_set_conv_nth)
    with all have "?f k = Inr (ys ! i)" by (auto simp: list_all2_conv_all_nth)
    from step [OF this] show "k < length indexer \<and> ix < length (o_log_probs outs) \<and>
      k < length (o_log_probs outs ! ix)" by simp
  qed
  from pl ys_eq len bounds show ?thesis by auto
qed

text \<open>A batch whose arrays have one row per instance, and whose set bits and tag
  dimension are within the indexer, is decoded without an exception.\<close>

lemma decode_returns:
  assumes preds: "length (o_mask outs) \<le> length (o_preds outs)"
    and lps: "length (o_mask outs) \<le> length (o_log_probs outs)"
    and atts: "length (o_mask outs) \<le> shape0 (o_attentions outs)"
    and tags: "shape2 (o_attentions outs) \<le> length indexer"
    and bits: "\<And>ix k. ix < length (o_mask outs) \<Longrightarrow> k \<in> set (np_nonzero (o_preds outs ! ix))
                 \<Longrightarrow> k < length indexer \<and> k < length (o_log_probs outs ! ix)"
  shows "\<exists>d. decode np_exp indexer outs = Inr d"
proof -
  have one: "\<exists>y. bind_err (decode_pred_list np_exp indexer outs ix) (\<lambda>pred_list.
                bind_err (decode_attention indexer outs (map sum_list (o_mask outs) ! ix) ix)
                  (\<lambda>attention. Inr (pred_list, attention))) = Inr y"
    if "ix \<in> set [0..<length (map sum_list (o_mask outs))]" for ix
  proof -
    from that have ix: "ix < length (o_mask outs)" by simp
    have "\<exists>ys. mapM_err
          (\<lambda>k. bind_err (get_tag indexer k) (\<lambda>tag.
               bind_err (nth_err (o_log_probs outs) ix) (\<lambda>lrow.
               bind_err (nth_err lrow k) (\<lambda>lp. Inr (tag, np_exp lp)))))
          (np_nonzero (o_preds outs ! ix)) = Inr ys"
    proof (rule mapM_err_returns)
      fix k assume "k \<in> set (np_nonzero (o_preds outs ! ix))"
      from bits [OF ix this] ix lps
      show "\<exists>y. bind_err (get_tag indexer k) (\<lambda>tag.
               bind_err (nth_err (o_log_probs outs) ix) (\<lambda>lrow.
               bind_err (nth_err lrow k) (\<lambda>lp. Inr (tag, np_exp lp)))) = Inr y"
        by (simp add: get_tag_def nth_err_def)
    qed
    with ix preds obtain pl where pl: "decode_pred_list np_exp indexer outs ix = Inr pl"
      by (auto simp: decode_pred_list_def nth_err_def)
    have "\<exists>ps. mapM_err
             (\<lambda>jx. bind_err (get_tag indexer jx) (\<lambda>tag.
                  Inr (tag, map (\<lambda>t. item3 (o_attentions outs) ix t jx)
                    [0..<min (map sum_list (o_mask outs) ! ix) (shape1 (o_attentions outs))])))
             [0..<shape2 (o_attentions outs)] = Inr ps"
    proof (rule mapM_err_returns)
      fix jx assume "jx \<in> set [0..<shape2 (o_attentions outs)]"
      with tags show "\<exists>y. bind_err (get_tag indexer jx) (\<lambda>tag.
                  Inr (tag, map (\<lambda>t. item3 (o_attentions outs) ix t jx)
                    [0..<min (map sum_list (o_mask outs) ! ix) (shape1 (o_attentions outs))])) = Inr y"
        by (simp add: get_tag_def)
    qed
    with ix atts obtain att where
      "decode_attention indexer outs (map sum_list (o_mask outs) ! ix) ix = Inr att"
      by (auto simp: decode_attention_def Let_def)
    with pl show ?thesis by simp
  qed
  have "\<exists>rs. mapM_err (\<lambda>ix. bind_err (decode_pred_list np_exp indexer outs ix) (\<lambda>pred_list.
                bind_err (decode_attention indexer outs (map sum_list (o_mask outs) ! ix) ix)
                  (\<lambda>attention. Inr (pred_list, attention))))
          [0..<length (map sum_list (o_mask outs))] = Inr rs"
    by (rule mapM_err_returns) (rule one)
  then show ?thesis by (auto simp: decode_def Let_def)
qed

text \<open>
  Claim C4. In a decoded batch, an instance whose prediction bits are all zero gets
  exactly the single entry \<^verbatim>\<open>["O", 1.0]\<close>, never an empty list.
\<close>

theorem decode_no_bit_gives_O:
  assumes "decode np_exp indexer outs = Inr d"
    and "ix < length (o_mask outs)"
    and "\<forall>v\<in>set (o_preds outs ! ix). v = 0"
  shows "d_preds d ! ix = [(''O'', 1)] \<and> d_preds d ! ix \<noteq> []"
proof -
  from assms(3) have "np_nonzero (o_preds outs ! ix) = []"
    by (simp add: np_nonzero_def nonzero_from_all_zero)
  with decode_pred_list_Inr [OF decode_Inr_pred_list [OF assms(1,2)]]
  show ?thesis by simp
qed

theorem decode_no_bit_gives_O_witness:
  "decode exp [''PER'', ''LOC'', ''ORG''] (ex_outs [0, 0, 0]) =
     Inr \<lparr>d_preds = [[(''O'', 1)]],
          d_attentions = [[(''PER'', [0, 0]), (''LOC'', [0, 0]), (''ORG'', [0, 0])]]\<rparr> \<and>
   (0::nat) < length (o_mask (ex_outs [0, 0, 0])) \<and>
   o_preds (ex_outs [0, 0, 0]) ! 0 = [0, 0, 0] \<and>
   d_preds \<lparr>d_preds = [[(''O'', 1::real)]],
           d_attentions = [[(''PER'', [0, 0]), (''LOC'', [0, 0]), (''ORG'', [0, 0])]]\<rparr> ! 0
     = [(''O'', 1)]"
proof -
  have ev: "decode exp [''PER'', ''LOC'', ''ORG''] (ex_outs [0, 0, 0]) =
     Inr \<lparr>d_preds = [[(''O'', 1)]],
          d_attentions = [[(''PER'', [0, 0]), (''LOC'', [0, 0]), (''ORG'', [0, 0])]]\<rparr>"
    by (simp add: decode_def decode_pred_list_def decode_attention_def ex_outs_def Let_def
        nth_err_def get_tag_def np_nonzero_def upt_small)
  have len: "(0::nat) < length (o_mask (ex_outs [0, 0, 0]))"
    by (simp add: ex_outs_def)
  have zero: "\<forall>v\<in>set (o_preds (ex_outs [0, 0, 0]) ! 0). v = 0"
    by (simp add: ex_outs_def)
  from decode_no_bit_gives_O [OF ev len zero] ev len show ?thesis
    by (simp add: ex_outs_def)
qed

text \<open>
  Claim C5. In a decoded batch, the set prediction bits of an instance are visited in
  strictly increasing index order, each index has a tag and a log-probability, and
  when some bit is set the prediction list is exactly the list of pairs of the tag of
  that index and \<^verbatim>\<open>np.exp\<close> of its log-probability, one per set bit in that order.
\<close>

theorem decode_set_bits_in_order:
  assumes "decode np_exp indexer outs = Inr d"
    and "ix < length (o_mask outs)"
  shows "sorted_wrt (<) (np_nonzero (o_preds outs ! ix)) \<and>
         set (np_nonzero (o_preds outs ! ix))
           = {k. k < length (o_preds outs ! ix) \<and> o_preds outs ! ix ! k \<noteq> 0} \<and>
         (\<forall>k\<in>set (np_nonzero (o_preds outs ! ix)).
            get_tag indexer k = Inr (indexer ! k) \<and> k < length (o_log_probs outs ! ix)) \<and>
         (np_nonzero (o_preds outs ! ix) \<noteq> [] \<longrightarrow>
            d_preds d ! ix = map (\<lambda>k. (indexer ! k, np_exp (o_log_probs outs ! ix ! k)))
                               (np_nonzero (o_preds outs ! ix)))"
proof -
  note pl = decode_pred_list_Inr [OF decode_Inr_pred_list [OF assms]]
  have "sorted_wrt (<) (np_nonzero (o_preds outs ! ix))"
    by (simp add: np_nonzero_def sorted_nonzero_from)
  moreover have "set (np_nonzero (o_preds outs ! ix))
           = {k. k < length (o_preds outs ! ix) \<and> o_preds outs ! ix ! k \<noteq> 0}"
    by (rule set_np_nonzero)
  moreover from pl have "\<forall>k\<in>set (np_nonzero (o_preds outs ! ix)).
            get_tag indexer k = Inr (indexer ! k) \<and> k < length (o_log_probs outs ! ix)"
    by (simp add: get_tag_def)
  moreover from pl have "np_nonzero (o_preds outs ! ix) \<noteq> [] \<longrightarrow>
            d_preds d ! ix = map (\<lambda>k. (indexer ! k, np_exp (o_log_probs outs ! ix ! k)))
                               (np_nonzero (o_preds outs ! ix))"
    by simp
  ultimately show ?thesis by blast
qed

theorem decode_set_bits_in_order_witness:
  "decode exp [''PER'', ''LOC'', ''ORG''] (ex_outs [1, 0, 1]) =
     Inr \<lparr>d_preds = [[(''PER'', exp (- (1 / 10))), (''ORG'', exp (- (3 / 10)))]],
          d_attentions = [[(''PER'', [0, 0]), (''LOC'', [0, 0]), (''ORG'', [0, 0])]]\<rparr> \<and>
   (0::nat) < length (o_mask (ex_outs [1, 0, 1])) \<and>
   np_nonzero (o_preds (ex_outs [1, 0, 1]) ! 0) = [0, 2] \<and>
   d_preds \<lparr>d_preds = [[(''PER'', exp (- (1 / 10))), (''ORG'', exp (- (3 / 10)))]],
           d_attentions = [[(''PER'', [0, 0]), (''LOC'', [0, 0]), (''ORG'', [0, 0])]]\<rparr> ! 0
     = map (\<lambda>k. ([''PER'', ''LOC'', ''ORG''] ! k, exp (o_log_probs (ex_outs [1, 0, 1]) ! 0 ! k)))
         [0, 2]"
proof -
  have ev: "decode exp [''PER'', ''LOC'', ''ORG''] (ex_outs [1, 0, 1]) =
     Inr \<lparr>d_preds = [[(''PER'', exp (- (1 / 10))), (''ORG'', exp (- (3 / 10)))]],
          d_attentions = [[(''PER'', [0, 0]), (''LOC'', [0, 0]), (''ORG'', [0, 0])]]\<rparr>"
    by (simp add: decode_def decode_pred_list_def decode_attention_def ex_outs_def Let_def
        nth_err_def get_tag_def np_nonzero_def upt_small)
  have len: "(0::nat) < length (o_mask (ex_outs [1, 0, 1]))"
    by (simp add: ex_outs_def)
  have nz: "np_nonzero (o_preds (ex_outs [1, 0, 1]) ! 0) = [0, 2]"
    by (simp add: ex_outs_def np_nonzero_def)
  from decode_set_bits_in_order [OF ev len] ev len nz show ?thesis
    by simp
qed

section \<open>Properties of the reader\<close>

subsection \<open>Lines, groups and columns\<close>

lemma groupby_group:
  "(k, g) \<in> set (groupby key xs) \<Longrightarrow> g \<noteq> [] \<and> (\<forall>x\<in>set g. key x = k)"
proof (induction key xs rule: groupby.induct)
  case (1 key)
  then show ?case by simp
next
  case (2 key x xs)
  from "2.prems" consider "(k, g) = (key x, x # takeWhile (\<lambda>y. key y = key x) xs)"
    | "(k, g) \<in> set (groupby key (dropWhile (\<lambda>y. key y = key x) xs))"
    by auto
  then show ?case
  proof cases
    case 1
    then show ?thesis by (auto dest: set_takeWhileD)
  next
    case 2
    then show ?thesis by (rule "2.IH")
  qed
qed

lemma py_strip_has_token_char:
  assumes "py_strip s \<noteq> []"
  shows "\<exists>c\<in>set (py_strip s). \<not> is_space c"
proof -
  let ?u = "dropWhile is_space (rev (dropWhile is_space s))"
  from assms have ne: "?u \<noteq> []" by (simp add: py_strip_def)
  then have "\<not> is_space (hd ?u)" by (rule hd_dropWhile)
  moreover from ne have "hd ?u \<in> set (py_strip s)" by (simp add: py_strip_def)
  ultimately show ?thesis by blast
qed

lemma set_py_strip: "set (py_strip s) \<subseteq> set s"
  by (auto simp: py_strip_def dest!: set_dropWhileD)

lemma split_from_not_Nil:
  "cur \<noteq> [] \<or> (\<exists>c\<in>set s. \<not> is_space c) \<Longrightarrow> split_from cur s \<noteq> []"
  by (induction s arbitrary: cur) auto

lemma py_split_not_Nil:
  assumes "py_strip line \<noteq> []"
  shows "py_split line \<noteq> []"
proof -
  from py_strip_has_token_char [OF assms] set_py_strip [of line]
  have "\<exists>c\<in>set line. \<not> is_space c" by blast
  then show ?thesis by (simp add: py_split_def split_from_not_Nil)
qed

lemma py_split_strip_not_Nil:
  assumes "py_strip line \<noteq> []"
  shows "py_split (py_strip line) \<noteq> []"
  using py_strip_has_token_char [OF assms] by (simp add: py_split_def split_from_not_Nil)

lemma min_len_pos:
  "rows \<noteq> [] \<Longrightarrow> \<forall>r\<in>set rows. r \<noteq> [] \<Longrightarrow> 0 < min_len rows"
  by (induction rows rule: min_len.induct) auto

lemma length_zip_star: "length (zip_star rows) = min_len rows"
  by (simp add: zip_star_def)

lemma length_column:
  "j < length (zip_star rows) \<Longrightarrow> length (zip_star rows ! j) = length rows"
  by (simp add: zip_star_def)

lemma sentence_is_group:
  "lns \<in> set (sentences data_file) \<longleftrightarrow> (False, lns) \<in> set (groupby is_divider data_file)"
  by (force simp: sentences_def)

lemma sentence_has_column:
  assumes "lns \<in> set (sentences data_file)"
  shows "unzip_fields lns \<noteq> []"
proof -
  from assms have "(False, lns) \<in> set (groupby is_divider data_file)"
    by (simp add: sentence_is_group)
  from groupby_group [OF this] have ne: "lns \<noteq> []" and nd: "\<forall>l\<in>set lns. \<not> is_divider l"
    by auto
  have "\<forall>r\<in>set (map (\<lambda>line. py_split (py_strip line)) lns). r \<noteq> []"
  proof
    fix r assume "r \<in> set (map (\<lambda>line. py_split (py_strip line)) lns)"
    then obtain l where l: "l \<in> set lns" "r = py_split (py_strip l)" by auto
    with nd have "py_strip l \<noteq> []" by (auto simp: is_divider_def split: if_splits)
    with l show "r \<noteq> []" by (simp add: py_split_strip_not_Nil)
  qed
  with ne have "0 < min_len (map (\<lambda>line. py_split (py_strip line)) lns)"
    by (intro min_len_pos) simp_all
  then show ?thesis
    by (auto simp: unzip_fields_def zip_star_def)
qed

subsection \<open>A malformed sentence\<close>

lemma read_sentence_bad_columns:
  assumes "unzip_fields lns \<noteq> []"
    and "length (unzip_fields lns) \<noteq> 3" and "length (unzip_fields lns) \<noteq> 4"
  shows "snd (read_sentence rd lns) = Inl (RuntimeError (length (unzip_fields lns)))"
  using assms by (auto simp: read_sentence_def Let_def split: list.splits)

lemma read_groups_Inl:
  "(False, lns) \<in> set gs \<Longrightarrow> snd (read_sentence rd lns) = Inl e
    \<Longrightarrow> \<exists>e'. snd (read_groups rd gs) = Inl e'"
proof (induction gs)
  case Nil
  then show ?case by simp
next
  case (Cons g gs)
  obtain d l where g: "g = (d, l)" by (cases g)
  show ?case
  proof (cases "g = (False, lns)")
    case True
    with Cons.prems(2) g show ?thesis
      by (cases "read_sentence rd lns") (auto split: sum.splits prod.splits)
  next
    case False
    with Cons.prems have "(False, lns) \<in> set gs" by auto
    from Cons.IH [OF this Cons.prems(2)] obtain e' where "snd (read_groups rd gs) = Inl e'" ..
    then show ?thesis
      using g by (cases "read_groups rd gs") (auto split: sum.splits prod.splits)
  qed
qed

lemma read_file_Inl:
  assumes "snd (read_groups rd (groupby is_divider data_file)) = Inl e"
  shows "snd (read_file rd data_file) = Inl e"
  using assms
  by (cases "read_groups rd (groupby is_divider data_file)")
    (auto simp: read_file_def split: sum.splits prod.splits)

text \<open>
  Claim C6. A sentence of the file whose lines unzip to a number of columns other than
  3 or 4 makes the sentence loop raise \<^verbatim>\<open>RuntimeError("Found length n")\<close>, and a file
  that holds such a sentence is never read to the end: the read raises an exception
  and returns no list of instances, whatever sentences come before.
\<close>
theorem bad_column_count_aborts_read:
  assumes "lns \<in> set (sentences data_file)"
    and "length (unzip_fields lns) \<noteq> 3" and "length (unzip_fields lns) \<noteq> 4"
  shows "snd (read_sentence rd lns) = Inl (RuntimeError (length (unzip_fields lns))) \<and>
         (\<exists>e. snd (read_file rd data_file) = Inl e)"
proof -
  have one: "snd (read_sentence rd lns) = Inl (RuntimeError (length (unzip_fields lns)))"
    using sentence_has_column [OF assms(1)] assms(2,3) by (rule read_sentence_bad_columns)
  from assms(1) have "(False, lns) \<in> set (groupby is_divider data_file)"
    by (simp add: sentence_is_group)
  from read_groups_Inl [OF this one] obtain e'
    where "snd (read_groups rd (groupby is_divider data_file)) = Inl e'" ..
  then have "snd (read_file rd data_file) = Inl e'" by (rule read_file_Inl)
  with one show ?thesis by blast
qed

theorem bad_column_count_aborts_read_witness:
  "[''Star NNP'', ''Wars NNP'']
     \<in> set (sentences [''The DT O'', ''end NN O'', '''', ''Star NNP'', ''Wars NNP'']) \<and>
   length (unzip_fields [''Star NNP'', ''Wars NNP'']) = 2 \<and>
   snd (read_sentence (ex_reader (- 1) False) [''Star NNP'', ''Wars NNP'']) = Inl (RuntimeError 2) \<and>
   read_file (ex_reader (- 1) False) [''The DT O'', ''end NN O'', '''', ''Star NNP'', ''Wars NNP'']
     = ([Info_reading], Inl (RuntimeError 2))"
proof -
  have mem: "[''Star NNP'', ''Wars NNP'']
     \<in> set (sentences [''The DT O'', ''end NN O'', '''', ''Star NNP'', ''Wars NNP''])"
    by code_simp
  have n: "length (unzip_fields [''Star NNP'', ''Wars NNP'']) = 2"
    by code_simp
  have ev: "read_file (ex_reader (- 1) False) [''The DT O'', ''end NN O'', '''', ''Star NNP'', ''Wars NNP'']
     = ([Info_reading], Inl (RuntimeError 2))"
    by code_simp
  from n have n3: "length (unzip_fields [''Star NNP'', ''Wars NNP'']) \<noteq> 3"
    and n4: "length (unzip_fields [''Star NNP'', ''Wars NNP'']) \<noteq> 4" by simp_all
  from bad_column_count_aborts_read [OF mem n3 n4, of "ex_reader (- 1) False"] mem n ev
  show ?thesis by simp
qed

subsection \<open>Windows\<close>

lemma range_from_nth:
  "j < length (range_from i n step) \<Longrightarrow>
     range_from i n step ! j = i + j * step \<and> i + j * step < n \<and> 0 < step"
proof (induction i n step arbitrary: j rule: range_from.induct)
  case (1 ix n step)
  show ?case
  proof (cases "0 < step \<and> ix < n")
    case True
    then have eq: "range_from ix n step = ix # range_from (ix + step) n step"
      by (subst range_from.simps) simp
    show ?thesis
    proof (cases j)
      case 0
      with True eq show ?thesis by simp
    next
      case (Suc j')
      with "1.prems" eq have "j' < length (range_from (ix + step) n step)" by simp
      from "1.IH" [OF True this] Suc eq show ?thesis by (simp add: algebra_simps)
    qed
  next
    case False
    then have "range_from ix n step = []" by (subst range_from.simps) simp
    with "1.prems" show ?thesis by simp
  qed
qed

lemma concat_windows:
  "0 < step \<Longrightarrow> n = length xs \<Longrightarrow>
     concat (map (\<lambda>ix. py_slice xs ix (ix + step)) (range_from i n step)) = drop i xs"
proof (induction i n step rule: range_from.induct)
  case (1 ix n step)
  show ?case
  proof (cases "ix < n")
    case True
    with "1.prems" have eq: "range_from ix n step = ix # range_from (ix + step) n step"
      by (subst range_from.simps) simp
    from True "1.prems" have "concat (map (\<lambda>ix. py_slice xs ix (ix + step))
        (range_from (ix + step) n step)) = drop (ix + step) xs"
      by (intro "1.IH") simp_all
    then have "concat (map (\<lambda>ix. py_slice xs ix (ix + step)) (range_from ix n step))
        = take step (drop ix xs) @ drop step (drop ix xs)"
      by (simp add: eq py_slice_def add.commute)
    then show ?thesis by (metis append_take_drop_id drop_drop)
  next
    case False
    then have "range_from ix n step = []" by (subst range_from.simps) simp
    with False "1.prems" show ?thesis by simp
  qed
qed

lemma range_from_length:
  "0 < step \<Longrightarrow> i + j * step < n \<Longrightarrow> j < length (range_from i n step)"
proof (induction i n step arbitrary: j rule: range_from.induct)
  case (1 ix n step)
  from "1.prems" have lt: "ix < n" by (meson add_lessD1)
  with "1.prems" have eq: "range_from ix n step = ix # range_from (ix + step) n step"
    by (subst range_from.simps) simp
  show ?case
  proof (cases j)
    case 0
    with eq show ?thesis by simp
  next
    case (Suc j')
    with "1.prems" have "ix + step + j' * step < n" by (simp add: algebra_simps)
    with "1.prems" lt have "j' < length (range_from (ix + step) n step)"
      by (intro "1.IH") simp_all
    with eq Suc show ?thesis by simp
  qed
qed

lemma window_length:
  assumes "j < length (range_from 0 (length xs) step)"
  shows "length (py_slice xs (range_from 0 (length xs) step ! j)
                   (range_from 0 (length xs) step ! j + step))
         = (if Suc j < length (range_from 0 (length xs) step) then step
            else length xs - j * step) \<and>
         py_slice xs (range_from 0 (length xs) step ! j)
                   (range_from 0 (length xs) step ! j + step) \<noteq> [] \<and>
         length (py_slice xs (range_from 0 (length xs) step ! j)
                   (range_from 0 (length xs) step ! j + step)) \<le> step"
proof -
  let ?r = "range_from 0 (length xs) step"
  from range_from_nth [OF assms] have nth: "?r ! j = j * step" and lt: "j * step < length xs"
    and step: "0 < step" by simp_all
  have len: "length (py_slice xs (?r ! j) (?r ! j + step)) = min (length xs - j * step) step"
    by (simp add: nth py_slice_def)
  from lt step have ne: "py_slice xs (?r ! j) (?r ! j + step) \<noteq> []"
    by (simp add: nth py_slice_def)
  show ?thesis
  proof (cases "Suc j < length ?r")
    case True
    from range_from_nth [OF True] have "Suc j * step < length xs" by simp
    then have "step \<le> length xs - j * step" by simp
    with True len ne show ?thesis by simp
  next
    case False
    with range_from_length [OF step, of 0 "Suc j" "length xs"]
    have "\<not> Suc j * step < length xs" by auto
    then have "length xs - j * step \<le> step" by simp
    with False len ne show ?thesis by simp
  qed
qed

subsection \<open>Instances\<close>

lemma optional_field_Inr_iff:
  "optional_field wanted fld = Inr v \<longleftrightarrow>
     (if wanted then \<exists>ls. fld = Inr ls \<and> v = Some ls else v = None)"
  by (cases fld) (auto simp: optional_field_def)

lemma make_instance_Inr:
  assumes "make_instance rd nt mt pos chunk ner step ix = Inr inst"
  shows "f_tokens inst = py_slice nt ix (ix + step) \<and>
         f_labels inst = map_option (\<lambda>index. index (py_slice ner ix (ix + step))) (label_indexer rd) \<and>
         (tag_label rd = Some ''ner'' \<longrightarrow> f_tags inst = Some (py_slice ner ix (ix + step)))"
proof -
  from assms have scheme: "coding_scheme rd \<noteq> ''BIOUL''"
    by (auto simp: make_instance_def Let_def)
  from assms scheme obtain tags_field pos_field chunk_field ner_field where
    tf: "(if tag_label rd = Some ''ner'' then
           (case SequenceLabelField (Some (py_slice ner ix (ix + step))) (py_slice nt ix (ix + step)) of
              Inl e \<Rightarrow> Inl PdbSetTrace
            | Inr ls \<Rightarrow> Inr (Some ls))
         else if tag_label rd = Some ''pos'' then
           optional_field True (SequenceLabelField (Some pos) (py_slice nt ix (ix + step)))
         else if tag_label rd = Some ''chunk'' then
           optional_field True (SequenceLabelField
             (map_option (\<lambda>c. py_slice c ix (ix + step)) chunk) (py_slice nt ix (ix + step)))
         else Inr None) = Inr tags_field"
    and inst: "inst = \<lparr>f_tokens = py_slice nt ix (ix + step),
           f_attn_mask = py_slice mt ix (ix + step), f_pos_tags = pos_field,
           f_chunk_tags = chunk_field, f_ner_tags = ner_field, f_tags = tags_field,
           f_labels = map_option (\<lambda>index. index (py_slice ner ix (ix + step))) (label_indexer rd)\<rparr>"
    by (auto simp: make_instance_def Let_def bind_err_Inr_iff)
  have "tag_label rd = Some ''ner'' \<longrightarrow> tags_field = Some (py_slice ner ix (ix + step))"
    using tf by (auto simp: SequenceLabelField_def split: if_splits sum.splits)
  with inst show ?thesis by simp
qed

lemma read_sentence_Inr:
  assumes "read_sentence rd lns = (lg, Inr insts)"
  shows "0 < stepsize rd lns \<and>
         (\<exists>pos chunk ner.
            list_all2
              (\<lambda>ix inst. make_instance rd (new_tokens rd lns)
                            (map (mask_token rd) (unzip_fields lns ! 0)) pos chunk ner
                            (stepsize rd lns) ix = Inr inst)
              (range_from 0 (length (new_tokens rd lns)) (stepsize rd lns)) insts)"
proof -
  let ?u = "unzip_fields lns"
  let ?L = "max_sentence_length rd"
  let ?cols = "if length ?u = 4 then Inr (?u ! 0, ?u ! 1, Some (?u ! 2), ?u ! 3)
       else if length ?u = 3 then Inr (?u ! 0, ?u ! 1, None, ?u ! 2)
       else Inl (RuntimeError (length ?u))"
  let ?body = "\<lambda>(tokens, pos_tags, chunk_tags, ner_tags).
       let new_tokens = map (new_token rd) tokens;
           mask_tokens = map (mask_token rd) tokens;
           stepsize = (if ?L > 0 then nat ?L else length tokens)
       in bind_err (py_range 0 (length new_tokens) stepsize)
            (mapM_err (make_instance rd new_tokens mask_tokens pos_tags chunk_tags ner_tags stepsize))"
  from assms have "bind_err ?cols ?body = Inr insts"
    by (auto simp: read_sentence_def Let_def split: if_splits list.splits sum.splits)
  then obtain pos chunk ner where cols: "?cols = Inr (?u ! 0, pos, chunk, ner)"
    and body: "?body (?u ! 0, pos, chunk, ner) = Inr insts"
    by (auto simp: bind_err_Inr_iff split: if_splits)
  from body obtain ixs where
    rng: "py_range 0 (length (new_tokens rd lns)) (stepsize rd lns) = Inr ixs"
    and mm: "mapM_err (make_instance rd (new_tokens rd lns)
                (map (mask_token rd) (?u ! 0)) pos chunk ner (stepsize rd lns)) ixs = Inr insts"
    by (auto simp: Let_def bind_err_Inr_iff new_tokens_def stepsize_def)
  from rng have step: "0 < stepsize rd lns"
    and ixs: "ixs = range_from 0 (length (new_tokens rd lns)) (stepsize rd lns)"
    by (auto simp: py_range_def split: if_splits)
  from mapM_err_Inr [OF mm] ixs step show ?thesis by blast
qed

lemma read_groups_Inr:
  "read_groups rd gs = (lg, Inr insts) \<Longrightarrow>
     \<exists>per. list_all2 (\<lambda>lns p. \<exists>lg'. read_sentence rd lns = (lg', Inr p))
              (map snd (filter (\<lambda>g. \<not> fst g) gs)) per \<and> insts = concat per"
proof (induction gs arbitrary: lg insts)
  case Nil
  then show ?case by simp
next
  case (Cons g gs)
  obtain d lns where g: "g = (d, lns)" by (cases g)
  show ?case
  proof (cases d)
    case True
    with Cons.prems g have "read_groups rd gs = (lg, Inr insts)" by simp
    from Cons.IH [OF this] True g show ?thesis by simp
  next
    case False
    with Cons.prems g obtain lg1 p lg2 others where
      one: "read_sentence rd lns = (lg1, Inr p)"
      and rest: "read_groups rd gs = (lg2, Inr others)"
      and insts: "insts = p @ others"
      by (auto split: prod.splits sum.splits)
    from Cons.IH [OF rest] obtain per where
      per: "list_all2 (\<lambda>lns p. \<exists>lg'. read_sentence rd lns = (lg', Inr p))
              (map snd (filter (\<lambda>g. \<not> fst g) gs)) per" and "others = concat per" by blast
    with one insts False g have
      "list_all2 (\<lambda>lns p. \<exists>lg'. read_sentence rd lns = (lg', Inr p))
              (map snd (filter (\<lambda>g. \<not> fst g) (g # gs))) (p # per) \<and> insts = concat (p # per)"
      by auto
    then show ?thesis by blast
  qed
qed

lemma startswith_sub_I_B:
  "startswith t ''I-'' \<Longrightarrow> startswith (sub_I_B t) ''B-''"
  by (cases t rule: sub_I_B.cases) (auto simp: startswith_def)

lemma check_instance_Inr:
  assumes "check_instance rd a = (lg, Inr b)"
  shows "f_tokens b = f_tokens a \<and> f_labels b = f_labels a \<and>
         (max_sentence_length rd > 0 \<longrightarrow> int (length (f_tokens a)) \<le> max_sentence_length rd) \<and>
         (\<exists>t ts. f_tags a = Some (t # ts) \<and> length (f_tokens a) = length (t # ts) \<and>
            (if startswith t ''I-'' then f_tags b = Some (sub_I_B t # ts) \<and> lg = [Info_correction]
             else b = a \<and> lg = []))"
  using assms
  by (auto simp: check_instance_def Let_def split: option.splits if_splits list.splits)

lemma check_instances_Inr:
  "check_instances rd insts = (lg, Inr insts') \<Longrightarrow>
     list_all2 (\<lambda>a b. \<exists>lg'. check_instance rd a = (lg', Inr b)) insts insts'"
proof (induction insts arbitrary: lg insts')
  case Nil
  then show ?case by simp
next
  case (Cons a insts)
  from Cons.prems obtain lg1 b lg2 rest' where
    one: "check_instance rd a = (lg1, Inr b)"
    and rest: "check_instances rd insts = (lg2, Inr rest')"
    and eq: "insts' = b # rest'"
    by (auto split: prod.splits sum.splits)
  from Cons.IH [OF rest] one eq show ?case by auto
qed

lemma read_file_Inr:
  assumes "read_file rd data_file = (lg, Inr instances)"
  shows "\<exists>lg0 lg1 emitted. read_groups rd (groupby is_divider data_file) = (lg0, Inr emitted) \<and>
           check_instances rd emitted = (lg1, Inr instances)"
  using assms by (auto simp: read_file_def split: prod.splits sum.splits)

subsection \<open>A well-formed file is read to the end\<close>

text \<open>With \<^verbatim>\<open>tag_label="ner"\<close>, the IOB1 scheme and no feature labels, a file whose
  sentences all have three or four columns is read without an exception, for every
  \<^verbatim>\<open>max_sentence_length\<close>.\<close>

lemma make_instance_default:
  assumes "tag_label rd = Some ''ner''" and "coding_scheme rd \<noteq> ''BIOUL''"
    and "feature_labels rd = {}" and "length ner = length nt"
  shows "make_instance rd nt mt pos chunk ner step ix =
     Inr \<lparr>f_tokens = py_slice nt ix (ix + step), f_attn_mask = py_slice mt ix (ix + step),
          f_pos_tags = None, f_chunk_tags = None, f_ner_tags = None,
          f_tags = Some (py_slice ner ix (ix + step)),
          f_labels = map_option (\<lambda>index. index (py_slice ner ix (ix + step))) (label_indexer rd)\<rparr>"
  using assms
  by (simp add: make_instance_def Let_def optional_field_def SequenceLabelField_def py_slice_def)

lemma range_from_member:
  assumes "ix \<in> set (range_from i n step)"
  shows "ix < n \<and> 0 < step"
proof -
  from assms obtain j where "j < length (range_from i n step)" "range_from i n step ! j = ix"
    by (auto simp: in_set_conv_nth)
  with range_from_nth [of j i n step] show ?thesis by auto
qed

lemma check_instance_default:
  assumes "ix < length nt" and "0 < step" and "length ner = length nt"
    and "0 < max_sentence_length rd \<longrightarrow> step = nat (max_sentence_length rd)"
    and "f_tokens inst = py_slice nt ix (ix + step)"
    and "f_tags inst = Some (py_slice ner ix (ix + step))"
  shows "\<exists>lg' b. check_instance rd inst = (lg', Inr b)"
proof -
  from assms(1,2,3) have ne: "py_slice ner ix (ix + step) \<noteq> []"
    by (simp add: py_slice_def)
  then obtain t ts where ts: "py_slice ner ix (ix + step) = t # ts"
    by (cases "py_slice ner ix (ix + step)") auto
  from assms(3) have len: "length (py_slice nt ix (ix + step)) = length (py_slice ner ix (ix + step))"
    by (simp add: py_slice_def)
  have "length (py_slice nt ix (ix + step)) \<le> step"
    by (simp add: py_slice_def)
  with assms(4) have le: "0 < max_sentence_length rd \<longrightarrow>
      int (length (py_slice nt ix (ix + step))) \<le> max_sentence_length rd"
    by auto
  from len le ts assms(5,6) show ?thesis
    by (auto simp: check_instance_def Let_def)
qed

lemma read_sentence_default:
  assumes tag: "tag_label rd = Some ''ner''" and scheme: "coding_scheme rd \<noteq> ''BIOUL''"
    and feats: "feature_labels rd = {}"
    and lns: "lns \<noteq> []"
    and cols: "length (unzip_fields lns) = 3 \<or> length (unzip_fields lns) = 4"
  shows "\<exists>lg insts. read_sentence rd lns = (lg, Inr insts) \<and>
           (\<forall>inst\<in>set insts. \<exists>lg' b. check_instance rd inst = (lg', Inr b))"
proof -
  let ?u = "unzip_fields lns"
  let ?L = "max_sentence_length rd"
  let ?n = "if length ?u = 4 then 3 else 2 :: nat"
  let ?step = "stepsize rd lns"
  let ?nt = "new_tokens rd lns"
  let ?mt = "map (mask_token rd) (?u ! 0)"
  let ?pos = "?u ! 1"
  let ?chunk = "if length ?u = 4 then Some (?u ! 2) else None"
  let ?ner = "?u ! ?n"
  let ?mk = "\<lambda>ix. \<lparr>f_tokens = py_slice ?nt ix (ix + ?step), f_attn_mask = py_slice ?mt ix (ix + ?step),
          f_pos_tags = None, f_chunk_tags = None, f_ner_tags = None,
          f_tags = Some (py_slice ?ner ix (ix + ?step)),
          f_labels = map_option (\<lambda>index. index (py_slice ?ner ix (ix + ?step))) (label_indexer rd)\<rparr>"
  from cols have ne: "?u \<noteq> []" by auto
  have collen: "length (?u ! j) = length lns" if "j < length ?u" for j
    using that length_column [of j "map (\<lambda>line. py_split (py_strip line)) lns"]
    by (simp add: unzip_fields_def)
  from cols have l0: "length (?u ! 0) = length lns" and ln: "length ?ner = length lns"
    by (auto simp: collen)
  then have nernt: "length ?ner = length ?nt" by (simp add: new_tokens_def)
  from lns l0 have step: "0 < ?step" by (simp add: stepsize_def)
  have mk: "mapM_err (make_instance rd ?nt ?mt ?pos ?chunk ?ner ?step)
              (range_from 0 (length ?nt) ?step)
            = Inr (map ?mk (range_from 0 (length ?nt) ?step))"
    by (rule mapM_err_map) (rule make_instance_default [OF tag scheme feats nernt])
  let ?cols = "if length ?u = 4 then Inr (?u ! 0, ?u ! 1, Some (?u ! 2), ?u ! 3)
       else if length ?u = 3 then Inr (?u ! 0, ?u ! 1, None, ?u ! 2)
       else Inl (RuntimeError (length ?u))"
  let ?body = "\<lambda>(tokens, pos_tags, chunk_tags, ner_tags).
       let new_tokens = map (new_token rd) tokens;
           mask_tokens = map (mask_token rd) tokens;
           stepsize = (if ?L > 0 then nat ?L else length tokens)
       in bind_err (py_range 0 (length new_tokens) stepsize)
            (mapM_err (make_instance rd new_tokens mask_tokens pos_tags chunk_tags ner_tags stepsize))"
  from ne have unfold: "snd (read_sentence rd lns) = bind_err ?cols ?body"
    by (auto simp: read_sentence_def Let_def split: list.splits)
  from cols have c: "?cols = Inr (?u ! 0, ?pos, ?chunk, ?ner)" by auto
  have "?body (?u ! 0, ?pos, ?chunk, ?ner)
      = bind_err (py_range 0 (length ?nt) ?step)
          (mapM_err (make_instance rd ?nt ?mt ?pos ?chunk ?ner ?step))"
    by (simp add: Let_def new_tokens_def stepsize_def)
  also from step have "\<dots> = mapM_err (make_instance rd ?nt ?mt ?pos ?chunk ?ner ?step)
          (range_from 0 (length ?nt) ?step)"
    by (simp add: py_range_def)
  finally have "?body (?u ! 0, ?pos, ?chunk, ?ner)
      = Inr (map ?mk (range_from 0 (length ?nt) ?step))"
    by (simp only: mk)
  with unfold c have "snd (read_sentence rd lns) = Inr (map ?mk (range_from 0 (length ?nt) ?step))"
    by (simp only: bind_err.simps)
  then obtain lg where rs: "read_sentence rd lns = (lg, Inr (map ?mk (range_from 0 (length ?nt) ?step)))"
    by (cases "read_sentence rd lns") auto
  have "\<forall>inst\<in>set (map ?mk (range_from 0 (length ?nt) ?step)).
          \<exists>lg' b. check_instance rd inst = (lg', Inr b)"
  proof
    fix inst assume "inst \<in> set (map ?mk (range_from 0 (length ?nt) ?step))"
    then obtain ix where ix: "ix \<in> set (range_from 0 (length ?nt) ?step)" and inst: "inst = ?mk ix"
      by auto
    from range_from_member [OF ix] have lt: "ix < length ?nt" by simp
    have "0 < ?L \<longrightarrow> ?step = nat ?L" by (simp add: stepsize_def)
    from check_instance_default [OF lt step nernt this, of inst] inst
    show "\<exists>lg' b. check_instance rd inst = (lg', Inr b)" by simp
  qed
  with rs show ?thesis by blast
qed

lemma read_groups_returns:
  assumes "\<And>lns. (False, lns) \<in> set gs \<Longrightarrow>
             \<exists>lg insts. read_sentence rd lns = (lg, Inr insts) \<and>
               (\<forall>inst\<in>set insts. \<exists>lg' b. check_instance rd inst = (lg', Inr b))"
  shows "\<exists>lg insts. read_groups rd gs = (lg, Inr insts) \<and>
           (\<forall>inst\<in>set insts. \<exists>lg' b. check_instance rd inst = (lg', Inr b))"
  using assms
proof (induction gs)
  case Nil
  then show ?case by simp
next
  case (Cons g gs)
  obtain d lns where g: "g = (d, lns)" by (cases g)
  from Cons.IH Cons.prems obtain lg2 others where
    rest: "read_groups rd gs = (lg2, Inr others)"
    and ok2: "\<forall>inst\<in>set others. \<exists>lg' b. check_instance rd inst = (lg', Inr b)"
    by auto
  show ?case
  proof (cases d)
    case True
    with g rest ok2 show ?thesis by simp
  next
    case False
    with g Cons.prems [of lns] obtain lg1 insts where
      one: "read_sentence rd lns = (lg1, Inr insts)"
      and ok1: "\<forall>inst\<in>set insts. \<exists>lg' b. check_instance rd inst = (lg', Inr b)"
      by auto
    from False g one rest have "read_groups rd (g # gs) = (lg1 @ lg2, Inr (insts @ others))"
      by simp
    with ok1 ok2 show ?thesis by auto
  qed
qed

lemma check_instances_returns:
  "\<forall>inst\<in>set insts. \<exists>lg' b. check_instance rd inst = (lg', Inr b) \<Longrightarrow>
     \<exists>lg insts'. check_instances rd insts = (lg, Inr insts')"
proof (induction insts)
  case Nil
  then show ?case by simp
next
  case (Cons a insts)
  from Cons.prems obtain lg1 b where one: "check_instance rd a = (lg1, Inr b)" by auto
  from Cons.IH Cons.prems obtain lg2 rest' where "check_instances rd insts = (lg2, Inr rest')"
    by auto
  with one show ?case by simp
qed

lemma read_file_returns:
  assumes "tag_label rd = Some ''ner''" and "coding_scheme rd \<noteq> ''BIOUL''"
    and "feature_labels rd = {}"
    and "\<And>lns. lns \<in> set (sentences data_file) \<Longrightarrow>
           length (unzip_fields lns) = 3 \<or> length (unzip_fields lns) = 4"
  shows "\<exists>lg instances. read_file rd data_file = (lg, Inr instances)"
proof -
  have "\<exists>lg insts. read_sentence rd lns = (lg, Inr insts) \<and>
           (\<forall>inst\<in>set insts. \<exists>lg' b. check_instance rd inst = (lg', Inr b))"
    if "(False, lns) \<in> set (groupby is_divider data_file)" for lns
  proof -
    from groupby_group [OF that] have "lns \<noteq> []" by simp
    moreover from that have "lns \<in> set (sentences data_file)" by (simp add: sentence_is_group)
    ultimately show ?thesis
      using assms by (intro read_sentence_default) auto
  qed
  from read_groups_returns [of "groupby is_divider data_file" rd, OF this] obtain lg0 emitted where
    groups: "read_groups rd (groupby is_divider data_file) = (lg0, Inr emitted)"
    and ok: "\<forall>inst\<in>set emitted. \<exists>lg' b. check_instance rd inst = (lg', Inr b)" by blast
  from check_instances_returns [OF ok] obtain lg1 instances where
    "check_instances rd emitted = (lg1, Inr instances)" by blast
  with groups show ?thesis by (simp add: read_file_def)
qed

subsection \<open>What a read returns\<close>

lemma sentence_windows:
  assumes "read_sentence rd lns = (lg, Inr insts)"
  shows "map f_tokens insts
         = map (\<lambda>ix. py_slice (new_tokens rd lns) ix (ix + stepsize rd lns))
             (range_from 0 (length (new_tokens rd lns)) (stepsize rd lns)) \<and>
         0 < stepsize rd lns"
proof -
  let ?r = "range_from 0 (length (new_tokens rd lns)) (stepsize rd lns)"
  from read_sentence_Inr [OF assms] obtain pos chunk ner where
    step: "0 < stepsize rd lns" and
    all: "list_all2
              (\<lambda>ix inst. make_instance rd (new_tokens rd lns)
                            (map (mask_token rd) (unzip_fields lns ! 0)) pos chunk ner
                            (stepsize rd lns) ix = Inr inst) ?r insts"
    by blast
  from all have len: "length insts = length ?r" by (auto dest: list_all2_lengthD)
  have "map f_tokens insts
      = map (\<lambda>ix. py_slice (new_tokens rd lns) ix (ix + stepsize rd lns)) ?r"
  proof (rule nth_equalityI)
    show "length (map f_tokens insts)
        = length (map (\<lambda>ix. py_slice (new_tokens rd lns) ix (ix + stepsize rd lns)) ?r)"
      using len by simp
  next
    fix i assume "i < length (map f_tokens insts)"
    then have i: "i < length insts" by simp
    with all have "make_instance rd (new_tokens rd lns)
        (map (mask_token rd) (unzip_fields lns ! 0)) pos chunk ner (stepsize rd lns) (?r ! i)
        = Inr (insts ! i)"
      by (simp add: list_all2_conv_all_nth)
    from make_instance_Inr [OF this] i len
    show "map f_tokens insts ! i
        = map (\<lambda>ix. py_slice (new_tokens rd lns) ix (ix + stepsize rd lns)) ?r ! i"
      by simp
  qed
  with step show ?thesis by simp
qed

lemma new_tokens_verbatim:
  "\<not> convert_numbers rd \<Longrightarrow> new_tokens rd lns = unzip_fields lns ! 0"
  by (simp add: new_tokens_def new_token_def map_idI)

lemma sentence_windows_props:
  assumes "read_sentence rd lns = (lg, Inr insts)" and "0 < max_sentence_length rd"
  shows "concat (map f_tokens insts) = new_tokens rd lns \<and>
         (\<forall>w\<in>set (map f_tokens insts). w \<noteq> []) \<and>
         (\<forall>w\<in>set (butlast (map f_tokens insts)). int (length w) = max_sentence_length rd)"
proof -
  let ?xs = "new_tokens rd lns"
  let ?step = "stepsize rd lns"
  let ?r = "range_from 0 (length ?xs) ?step"
  let ?ws = "map f_tokens insts"
  from sentence_windows [OF assms(1)] have ws: "?ws = map (\<lambda>ix. py_slice ?xs ix (ix + ?step)) ?r"
    and step: "0 < ?step" by simp_all
  from assms(2) have stepL: "int ?step = max_sentence_length rd"
    by (simp add: stepsize_def)
  have len: "length ?ws = length ?r" by (simp add: ws)
  have nth: "?ws ! j = py_slice ?xs (?r ! j) (?r ! j + ?step)" if "j < length ?r" for j
    using that by (simp add: ws)
  have "concat ?ws = drop 0 ?xs"
    unfolding ws using step by (rule concat_windows) simp
  then have c: "concat ?ws = ?xs" by simp
  have ne: "\<forall>w\<in>set ?ws. w \<noteq> []"
  proof
    fix w assume "w \<in> set ?ws"
    then obtain j where j: "j < length ?ws" "w = ?ws ! j" by (auto simp: in_set_conv_nth)
    with len have jr: "j < length ?r" by simp
    from window_length [OF jr] nth [OF jr] j show "w \<noteq> []" by simp
  qed
  have full: "\<forall>w\<in>set (butlast ?ws). int (length w) = max_sentence_length rd"
  proof
    fix w assume "w \<in> set (butlast ?ws)"
    then obtain j where j: "j < length (butlast ?ws)" "w = butlast ?ws ! j"
      by (auto simp: in_set_conv_nth)
    then have sj: "Suc j < length ?ws" by simp
    with j have w: "w = ?ws ! j" by (simp add: nth_butlast)
    from sj len have jr: "j < length ?r" and sjr: "Suc j < length ?r" by simp_all
    from window_length [OF jr] nth [OF jr] w sjr have "length w = ?step" by simp
    with stepL show "int (length w) = max_sentence_length rd" by simp
  qed
  from c ne full show ?thesis by blast
qed

text \<open>
  Claim C2, amended. When \<^verbatim>\<open>max_sentence_length\<close> is \<open>L > 0\<close> and the read returns,
  every instance has at most \<open>L\<close> tokens, and the token lists of the instances are, in
  emission order, the windows of the sentences in file order: no window is empty, all
  windows of a sentence but its last have exactly \<open>L\<close> tokens, and the concatenation of
  the windows of a sentence is the token sequence \<^verbatim>\<open>new_tokens\<close> the reader built for
  it. That sequence is the file's token column itself when \<^verbatim>\<open>convert_numbers\<close> is off;
  when it is on, every run of digits in a token has become the placeholder, so the
  windows do not reproduce the tokens of the file (the counterexample below).
\<close>
theorem read_file_windows:
  assumes "0 < max_sentence_length rd" and "read_file rd data_file = (lg, Inr instances)"
  shows "(\<forall>inst\<in>set instances. int (length (f_tokens inst)) \<le> max_sentence_length rd) \<and>
         (\<exists>per. length per = length (sentences data_file) \<and>
                map f_tokens instances = concat per \<and>
                (\<forall>k<length per.
                   concat (per ! k) = new_tokens rd (sentences data_file ! k) \<and>
                   (\<not> convert_numbers rd \<longrightarrow>
                      concat (per ! k) = unzip_fields (sentences data_file ! k) ! 0) \<and>
                   (\<forall>w\<in>set (per ! k). w \<noteq> []) \<and>
                   (\<forall>w\<in>set (butlast (per ! k)). int (length w) = max_sentence_length rd)))"
proof -
  from read_file_Inr [OF assms(2)] obtain lg0 lg1 emitted where
    groups: "read_groups rd (groupby is_divider data_file) = (lg0, Inr emitted)"
    and checks: "check_instances rd emitted = (lg1, Inr instances)" by blast
  note chk = check_instances_Inr [OF checks]
  then have len: "length instances = length emitted" by (auto dest: list_all2_lengthD)
  have same: "f_tokens (instances ! i) = f_tokens (emitted ! i) \<and>
      int (length (f_tokens (emitted ! i))) \<le> max_sentence_length rd" if "i < length emitted" for i
  proof -
    from chk that obtain lg' where "check_instance rd (emitted ! i) = (lg', Inr (instances ! i))"
      by (auto simp: list_all2_conv_all_nth)
    from check_instance_Inr [OF this] assms(1) show ?thesis by simp
  qed
  have bound: "\<forall>inst\<in>set instances. int (length (f_tokens inst)) \<le> max_sentence_length rd"
  proof
    fix inst assume "inst \<in> set instances"
    then obtain i where "i < length instances" "inst = instances ! i"
      by (auto simp: in_set_conv_nth)
    with same [of i] len show "int (length (f_tokens inst)) \<le> max_sentence_length rd" by simp
  qed
  have toks: "map f_tokens instances = map f_tokens emitted"
    by (rule nth_equalityI) (use len same in auto)
  from read_groups_Inr [OF groups] obtain per0 where
    per0: "list_all2 (\<lambda>lns p. \<exists>lg'. read_sentence rd lns = (lg', Inr p))
             (sentences data_file) per0"
    and emitted: "emitted = concat per0"
    by (auto simp: sentences_def)
  let ?per = "map (map f_tokens) per0"
  from per0 have l: "length ?per = length (sentences data_file)"
    by (auto dest: list_all2_lengthD)
  have c: "map f_tokens instances = concat ?per"
    by (simp add: toks emitted map_concat)
  have each: "concat (?per ! k) = new_tokens rd (sentences data_file ! k) \<and>
         (\<not> convert_numbers rd \<longrightarrow> concat (?per ! k) = unzip_fields (sentences data_file ! k) ! 0) \<and>
         (\<forall>w\<in>set (?per ! k). w \<noteq> []) \<and>
         (\<forall>w\<in>set (butlast (?per ! k)). int (length w) = max_sentence_length rd)"
    if "k < length ?per" for k
  proof -
    from that have k: "k < length per0" by simp
    with per0 obtain lg' where
      "read_sentence rd (sentences data_file ! k) = (lg', Inr (per0 ! k))"
      by (auto simp: list_all2_conv_all_nth)
    from sentence_windows_props [OF this assms(1)] k show ?thesis
      by (simp add: new_tokens_verbatim)
  qed
  from bound l c each show ?thesis by blast
qed


theorem read_file_windows_witness:
  "0 < max_sentence_length (ex_reader 2 True) \<and>
   read_file (ex_reader 2 True) [''In IN O'', ''May NNP O'', ''1996 CD O'', '''', ''Yes UH O'']
     = ([Info_reading, Warning_splitting 3 2],
        Inr [\<lparr>f_tokens = [''In'', ''May''], f_attn_mask = [(''In'', 0), (''May'', 0)],
               f_pos_tags = None, f_chunk_tags = None, f_ner_tags = None,
               f_tags = Some [''O'', ''O''], f_labels = Some [''O'', ''O'']\<rparr>,
             \<lparr>f_tokens = [''@0@''], f_attn_mask = [(''@0@'', 0)],
               f_pos_tags = None, f_chunk_tags = None, f_ner_tags = None,
               f_tags = Some [''O''], f_labels = Some [''O'']\<rparr>,
             \<lparr>f_tokens = [''Yes''], f_attn_mask = [(''Yes'', 0)],
               f_pos_tags = None, f_chunk_tags = None, f_ner_tags = None,
               f_tags = Some [''O''], f_labels = Some [''O'']\<rparr>]) \<and>
   sentences [''In IN O'', ''May NNP O'', ''1996 CD O'', '''', ''Yes UH O'']
     = [[''In IN O'', ''May NNP O'', ''1996 CD O''], [''Yes UH O'']] \<and>
   new_tokens (ex_reader 2 True) [''In IN O'', ''May NNP O'', ''1996 CD O'']
     = concat [[''In'', ''May''], [''@0@'']] \<and>
   new_tokens (ex_reader 2 True) [''Yes UH O''] = concat [[''Yes'']]"
proof -
  have pos: "0 < max_sentence_length (ex_reader 2 True)"
    by (simp add: ex_reader_def)
  have ev: "read_file (ex_reader 2 True) [''In IN O'', ''May NNP O'', ''1996 CD O'', '''', ''Yes UH O'']
     = ([Info_reading, Warning_splitting 3 2],
        Inr [\<lparr>f_tokens = [''In'', ''May''], f_attn_mask = [(''In'', 0), (''May'', 0)],
               f_pos_tags = None, f_chunk_tags = None, f_ner_tags = None,
               f_tags = Some [''O'', ''O''], f_labels = Some [''O'', ''O'']\<rparr>,
             \<lparr>f_tokens = [''@0@''], f_attn_mask = [(''@0@'', 0)],
               f_pos_tags = None, f_chunk_tags = None, f_ner_tags = None,
               f_tags = Some [''O''], f_labels = Some [''O'']\<rparr>,
             \<lparr>f_tokens = [''Yes''], f_attn_mask = [(''Yes'', 0)],
               f_pos_tags = None, f_chunk_tags = None, f_ner_tags = None,
               f_tags = Some [''O''], f_labels = Some [''O'']\<rparr>])"
    by code_simp
  have s: "sentences [''In IN O'', ''May NNP O'', ''1996 CD O'', '''', ''Yes UH O'']
     = [[''In IN O'', ''May NNP O'', ''1996 CD O''], [''Yes UH O'']]"
    by code_simp
  have n1: "new_tokens (ex_reader 2 True) [''In IN O'', ''May NNP O'', ''1996 CD O'']
     = concat [[''In'', ''May''], [''@0@'']]"
    by code_simp
  have n2: "new_tokens (ex_reader 2 True) [''Yes UH O''] = concat [[''Yes'']]"
    by code_simp
  from read_file_windows [OF pos ev] pos ev s n1 n2 show ?thesis
    by blast
qed

theorem read_file_windows_counterexample:
  "0 < max_sentence_length (ex_reader 2 True) \<and>
   snd (read_file (ex_reader 2 True) [''In IN O'', ''May NNP O'', ''1996 CD O''])
     = Inr [\<lparr>f_tokens = [''In'', ''May''], f_attn_mask = [(''In'', 0), (''May'', 0)],
               f_pos_tags = None, f_chunk_tags = None, f_ner_tags = None,
               f_tags = Some [''O'', ''O''], f_labels = Some [''O'', ''O'']\<rparr>,
             \<lparr>f_tokens = [''@0@''], f_attn_mask = [(''@0@'', 0)],
               f_pos_tags = None, f_chunk_tags = None, f_ner_tags = None,
               f_tags = Some [''O''], f_labels = Some [''O'']\<rparr>] \<and>
   unzip_fields [''In IN O'', ''May NNP O'', ''1996 CD O''] ! 0 = [''In'', ''May'', ''1996''] \<and>
   [''In'', ''May''] @ [''@0@''] \<noteq> [''In'', ''May'', ''1996'']"
  by code_simp

text \<open>
  Claim C9. For every instance a read returns, whatever \<^verbatim>\<open>max_sentence_length\<close> is
  and whether or not its sentence was split: when the first tag of the instance as
  the sentence loop emitted it starts with \<^verbatim>\<open>I-\<close>, the returned instance has that tag
  rewritten (to a tag that starts with \<^verbatim>\<open>B-\<close>) and the other tags unchanged, and
  otherwise the instance is returned as emitted. The \<^verbatim>\<open>labels\<close> field is the one
  derived in the sentence loop: the final loop leaves it alone, and with
  \<^verbatim>\<open>tag_label="ner"\<close> it is the indexer applied to the tags before the rewrite.
\<close>
theorem correction_on_every_instance:
  assumes "read_file rd data_file = (lg, Inr instances)"
  shows "\<exists>lg0 emitted.
           read_groups rd (groupby is_divider data_file) = (lg0, Inr emitted) \<and>
           length emitted = length instances \<and>
           (\<forall>i<length instances. \<exists>t ts.
              f_tags (emitted ! i) = Some (t # ts) \<and>
              f_labels (instances ! i) = f_labels (emitted ! i) \<and>
              (tag_label rd = Some ''ner'' \<longrightarrow>
                 f_labels (instances ! i) = map_option (\<lambda>index. index (t # ts)) (label_indexer rd)) \<and>
              (startswith t ''I-'' \<longrightarrow>
                 f_tags (instances ! i) = Some (sub_I_B t # ts) \<and> startswith (sub_I_B t) ''B-'') \<and>
              (\<not> startswith t ''I-'' \<longrightarrow> instances ! i = emitted ! i))"
proof -
  from read_file_Inr [OF assms] obtain lg0 lg1 emitted where
    groups: "read_groups rd (groupby is_divider data_file) = (lg0, Inr emitted)"
    and checks: "check_instances rd emitted = (lg1, Inr instances)" by blast
  note chk = check_instances_Inr [OF checks]
  then have len: "length emitted = length instances" by (auto dest: list_all2_lengthD)
  from read_groups_Inr [OF groups] obtain per where
    per: "list_all2 (\<lambda>lns p. \<exists>lg'. read_sentence rd lns = (lg', Inr p))
             (map snd (filter (\<lambda>g. \<not> fst g) (groupby is_divider data_file))) per"
    and emitted: "emitted = concat per" by blast
  have made: "\<exists>orig. f_labels inst = map_option (\<lambda>index. index orig) (label_indexer rd) \<and>
      (tag_label rd = Some ''ner'' \<longrightarrow> f_tags inst = Some orig)" if "inst \<in> set emitted" for inst
  proof -
    from that emitted obtain p where p: "p \<in> set per" "inst \<in> set p" by auto
    then obtain k where k: "k < length per" "p = per ! k" by (auto simp: in_set_conv_nth)
    with per obtain lns lg' where rs: "read_sentence rd lns = (lg', Inr p)"
      by (auto simp: list_all2_conv_all_nth)
    from read_sentence_Inr [OF rs] obtain pos chunk ner where
      all: "list_all2
              (\<lambda>ix inst. make_instance rd (new_tokens rd lns)
                            (map (mask_token rd) (unzip_fields lns ! 0)) pos chunk ner
                            (stepsize rd lns) ix = Inr inst)
              (range_from 0 (length (new_tokens rd lns)) (stepsize rd lns)) p" by blast
    from p(2) obtain j where j: "j < length p" "inst = p ! j" by (auto simp: in_set_conv_nth)
    with all have "make_instance rd (new_tokens rd lns)
        (map (mask_token rd) (unzip_fields lns ! 0)) pos chunk ner (stepsize rd lns)
        (range_from 0 (length (new_tokens rd lns)) (stepsize rd lns) ! j) = Inr inst"
      by (simp add: list_all2_conv_all_nth)
    from make_instance_Inr [OF this] show ?thesis by blast
  qed
  have each: "\<exists>t ts.
              f_tags (emitted ! i) = Some (t # ts) \<and>
              f_labels (instances ! i) = f_labels (emitted ! i) \<and>
              (tag_label rd = Some ''ner'' \<longrightarrow>
                 f_labels (instances ! i) = map_option (\<lambda>index. index (t # ts)) (label_indexer rd)) \<and>
              (startswith t ''I-'' \<longrightarrow>
                 f_tags (instances ! i) = Some (sub_I_B t # ts) \<and> startswith (sub_I_B t) ''B-'') \<and>
              (\<not> startswith t ''I-'' \<longrightarrow> instances ! i = emitted ! i)"
    if "i < length instances" for i
  proof -
    from that len have i: "i < length emitted" by simp
    with chk obtain lg' where "check_instance rd (emitted ! i) = (lg', Inr (instances ! i))"
      by (auto simp: list_all2_conv_all_nth)
    from check_instance_Inr [OF this] obtain t ts where
      tags: "f_tags (emitted ! i) = Some (t # ts)"
      and labels: "f_labels (instances ! i) = f_labels (emitted ! i)"
      and corr: "if startswith t ''I-'' then f_tags (instances ! i) = Some (sub_I_B t # ts) \<and>
                   lg' = [Info_correction]
                 else instances ! i = emitted ! i \<and> lg' = []"
      by blast
    from made [of "emitted ! i"] i obtain orig where
      orig: "f_labels (emitted ! i) = map_option (\<lambda>index. index orig) (label_indexer rd)"
        "tag_label rd = Some ''ner'' \<longrightarrow> f_tags (emitted ! i) = Some orig"
      by auto
    from orig tags labels have "tag_label rd = Some ''ner'' \<longrightarrow>
       f_labels (instances ! i) = map_option (\<lambda>index. index (t # ts)) (label_indexer rd)"
      by auto
    with tags labels corr show ?thesis
      by (auto simp: startswith_sub_I_B split: if_splits)
  qed
  from groups len each show ?thesis by blast
qed

theorem correction_on_every_instance_witness:
  "read_file (ex_reader (- 1) False) [''Ann NNP I-PER'', ''Lee NNP I-PER'', ''ran VBD O'']
     = ([Info_reading, Info_correction],
        Inr [\<lparr>f_tokens = [''Ann'', ''Lee'', ''ran''],
               f_attn_mask = [(''Ann'', 0), (''Lee'', 0), (''ran'', 0)],
               f_pos_tags = None, f_chunk_tags = None, f_ner_tags = None,
               f_tags = Some [''B-PER'', ''I-PER'', ''O''],
               f_labels = Some [''I-PER'', ''I-PER'', ''O'']\<rparr>]) \<and>
   read_groups (ex_reader (- 1) False)
       (groupby is_divider [''Ann NNP I-PER'', ''Lee NNP I-PER'', ''ran VBD O''])
     = ([],
        Inr [\<lparr>f_tokens = [''Ann'', ''Lee'', ''ran''],
               f_attn_mask = [(''Ann'', 0), (''Lee'', 0), (''ran'', 0)],
               f_pos_tags = None, f_chunk_tags = None, f_ner_tags = None,
               f_tags = Some [''I-PER'', ''I-PER'', ''O''],
               f_labels = Some [''I-PER'', ''I-PER'', ''O'']\<rparr>]) \<and>
   startswith ''I-PER'' ''I-'' \<and> sub_I_B ''I-PER'' = ''B-PER''"
proof -
  have ev: "read_file (ex_reader (- 1) False) [''Ann NNP I-PER'', ''Lee NNP I-PER'', ''ran VBD O'']
     = ([Info_reading, Info_correction],
        Inr [\<lparr>f_tokens = [''Ann'', ''Lee'', ''ran''],
               f_attn_mask = [(''Ann'', 0), (''Lee'', 0), (''ran'', 0)],
               f_pos_tags = None, f_chunk_tags = None, f_ner_tags = None,
               f_tags = Some [''B-PER'', ''I-PER'', ''O''],
               f_labels = Some [''I-PER'', ''I-PER'', ''O'']\<rparr>])"
    by code_simp
  have gr: "read_groups (ex_reader (- 1) False)
       (groupby is_divider [''Ann NNP I-PER'', ''Lee NNP I-PER'', ''ran VBD O''])
     = ([],
        Inr [\<lparr>f_tokens = [''Ann'', ''Lee'', ''ran''],
               f_attn_mask = [(''Ann'', 0), (''Lee'', 0), (''ran'', 0)],
               f_pos_tags = None, f_chunk_tags = None, f_ner_tags = None,
               f_tags = Some [''I-PER'', ''I-PER'', ''O''],
               f_labels = Some [''I-PER'', ''I-PER'', ''O'']\<rparr>])"
    by code_simp
  have st: "startswith ''I-PER'' ''I-'' \<and> sub_I_B ''I-PER'' = ''B-PER''"
    by code_simp
  from correction_on_every_instance [OF ev] ev gr st show ?thesis
    by blast
qed

lemma sub_I_B_head: "sub_I_B (''I-'' @ ty) = ''B-'' @ sub_I_B ty"
  by simp

lemma sub_I_B_type:
  "\<not> (\<exists>u v. ty = u @ ''I-'' @ v) \<Longrightarrow> sub_I_B ty = ty"
proof (induction ty rule: sub_I_B.induct)
  case (1 a b cs)
  have no: "\<not> (a = CHR ''I'' \<and> b = CHR ''-'')"
  proof
    assume "a = CHR ''I'' \<and> b = CHR ''-''"
    then have "a # b # cs = [] @ ''I-'' @ cs" by simp
    with "1.prems" show False by blast
  qed
  have "\<not> (\<exists>u v. b # cs = u @ ''I-'' @ v)"
  proof
    assume "\<exists>u v. b # cs = u @ ''I-'' @ v"
    then obtain u v where "b # cs = u @ ''I-'' @ v" by blast
    then have "a # b # cs = (a # u) @ ''I-'' @ v" by simp
    with "1.prems" show False by blast
  qed
  with "1.IH"(2) no have "sub_I_B (b # cs) = b # cs" by blast
  with no show ?case by auto
qed simp_all

text \<open>
  Claim C3. The claim asks for the beginning-of-span marker of the same entity type.
  The reader applies \<^verbatim>\<open>re.sub("I-", "B-", tag)\<close>, which replaces every occurrence of
  \<^verbatim>\<open>I-\<close> in the tag, not only the leading one (\<open>sub_I_B_head\<close>, \<open>sub_I_B_type\<close>): for the
  first window of a split sentence whose tags are \<^verbatim>\<open>I-SCI-FI\<close>, the rewritten tag is
  \<^verbatim>\<open>B-SCB-FI\<close> and not \<^verbatim>\<open>B-SCI-FI\<close>. For a type without \<^verbatim>\<open>I-\<close> inside, such as
  \<^verbatim>\<open>PER\<close>, the rewrite is the claimed one, and the correction is logged.
\<close>
theorem correction_rewrites_type:
  "read_file (ex_reader 2 False) [''Star NNP I-SCI-FI'', ''Wars NNP I-SCI-FI'', ''rocks VBZ O'']
     = ([Info_reading, Warning_splitting 3 2, Info_correction],
        Inr [\<lparr>f_tokens = [''Star'', ''Wars''], f_attn_mask = [(''Star'', 0), (''Wars'', 0)],
               f_pos_tags = None, f_chunk_tags = None, f_ner_tags = None,
               f_tags = Some [''B-SCB-FI'', ''I-SCI-FI''],
               f_labels = Some [''I-SCI-FI'', ''I-SCI-FI'']\<rparr>,
             \<lparr>f_tokens = [''rocks''], f_attn_mask = [(''rocks'', 0)],
               f_pos_tags = None, f_chunk_tags = None, f_ner_tags = None,
               f_tags = Some [''O''], f_labels = Some [''O'']\<rparr>])"
  by code_simp

end
